theory Spec2Isabelle
  imports
    Complex_Main
    "HOL-Library.Word"
    "HOL-Library.Finite_Map"
    "HOL-Library.Signed_Division"
begin

unbundle bit_operations_syntax

section \<open>The maze generator of src/index.ts\<close>

subsection \<open>Data\<close>

text \<open>
  \<^verbatim>\<open>enum CellType { Solid = 0, Empty }\<close> and \<^verbatim>\<open>const enum Direction { Up, Down, Left, Right }\<close>.
  A \<^verbatim>\<open>Vector2 = { x: number; z: number }\<close> is the pair \<open>(x, z)\<close>. Numbers are the
  integers the callers pass; every operation below is exact on them.
\<close>

datatype CellType = Solid | Empty

datatype Direction = Up | Down | Left | Right

type_synonym Vector2 = "int \<times> int"

datatype error = RangeError | TypeError

fun stepIn :: "Vector2 \<Rightarrow> Direction \<Rightarrow> int \<Rightarrow> Vector2" where
  "stepIn (x, z) Up scale = (x, z - scale)"
| "stepIn (x, z) Down scale = (x, z + scale)"
| "stepIn (x, z) Left scale = (x - scale, z)"
| "stepIn (x, z) Right scale = (x + scale, z)"

text \<open>
  \<^verbatim>\<open>((vec.x & 0xFFFF) << 16) | (vec.z & 0xFFFF)\<close>: the bitwise operators of JavaScript
  work on the 32-bit two's complement image of their operands, so the hash is a
  32-bit word; two hashes are the same map key exactly when the words are equal.
\<close>

definition hash :: "Vector2 \<Rightarrow> 32 word" where
  "hash vec = push_bit 16 (word_of_int (fst vec) AND 0xFFFF) OR (word_of_int (snd vec) AND 0xFFFF)"

text \<open>
  The \<^verbatim>\<open>cells\<close> array is a finite map from index to element: reading an index
  that was never written gives \<^verbatim>\<open>undefined\<close> (here \<open>None\<close>), writing outside the
  allocated range stores the element all the same (JavaScript extends the array, or
  adds a property for a negative index).
\<close>

record WilsonMaze =
  width :: int
  height :: int
  cells :: "(int, CellType) fmap"
  startIndex :: int
  goalIndex :: int

type_synonym path = "32 word \<rightharpoonup> Direction"

subsection \<open>Index conversions and cell access\<close>

definition linearize :: "WilsonMaze \<Rightarrow> int \<Rightarrow> int \<Rightarrow> int" where
  "linearize m x z = z * width m + x"

text \<open>
  \<^verbatim>\<open>index % this.width\<close> is the remainder of truncating division (\<open>smod\<close>);
  \<^verbatim>\<open>Math.floor(index / this.width)\<close> is the floor of the exact quotient (\<open>div\<close>
  on \<open>int\<close>). The width is odd after construction, hence never zero.
\<close>

definition delinearize :: "WilsonMaze \<Rightarrow> int \<Rightarrow> Vector2" where
  "delinearize m index = (index smod width m, index div width m)"

definition setCellType :: "WilsonMaze \<Rightarrow> int \<Rightarrow> int \<Rightarrow> CellType \<Rightarrow> WilsonMaze" where
  "setCellType m x z cellType = m\<lparr>cells := fmupd (linearize m x z) cellType (cells m)\<rparr>"

definition getCellType :: "WilsonMaze \<Rightarrow> int \<Rightarrow> int \<Rightarrow> CellType option" where
  "getCellType m x z = fmlookup (cells m) (linearize m x z)"

definition startPos :: "WilsonMaze \<Rightarrow> Vector2" where
  "startPos m = delinearize m (startIndex m)"

definition goalPos :: "WilsonMaze \<Rightarrow> Vector2" where
  "goalPos m = delinearize m (goalIndex m)"

subsection \<open>Random choices\<close>

text \<open>
  Each call of \<^verbatim>\<open>Math.random()\<close> takes the next element of a list of draws. A draw is a
  binary64 number in \<open>[0, 1)\<close>: the pair \<open>(k, j)\<close> stands for \<open>k / 2 ^ j\<close>, where \<open>k\<close> has at
  most 53 bits and \<open>j\<close> is at most 1074, the exponent of the smallest subnormal. Every
  binary64 number in \<open>[0, 1)\<close> is of this form, and every such pair is one. A run that needs
  a draw when the list is used up has not finished: its value is \<open>None\<close>.
\<close>

type_synonym draw = "nat \<times> nat"

definition isDraw :: "draw \<Rightarrow> bool" where
  "isDraw r \<longleftrightarrow> fst r < 2 ^ 53 \<and> fst r < 2 ^ snd r \<and> snd r \<le> 1074"

definition draws_ok :: "draw list \<Rightarrow> bool" where
  "draws_ok rs = list_all isDraw rs"

text \<open>
  The arithmetic on draws rounds as binary64 does. \<open>bitlen\<close> is the number of bits of a
  natural number, \<open>rne_div a b\<close> the quotient \<open>a / b\<close> rounded to the nearest integer, a tie
  to the even one. \<open>round53\<close> rounds an integer to 53 significant bits. The value
  \<open>(K, j)\<close> stands for \<open>K / 2 ^ j\<close>.

  \<open>mul64 r n\<close> is the product of the draw \<open>r\<close> with the integer \<open>n\<close> (a width or height
  less one, or 4: integers that binary64 holds exactly), rounded to binary64; the
  exponent of the result is at least that of the draw, so it is never subnormal beyond
  \<open>2 ^ -1074\<close>. \<open>half64\<close> divides by 2: exact, except at the exponent \<open>-1074\<close>, where the
  quotient is rounded to a multiple of \<open>2 ^ -1074\<close>. \<open>floor64\<close> is \<^verbatim>\<open>Math.floor\<close>.
\<close>

fun bitlen :: "nat \<Rightarrow> nat" where
  "bitlen n = (if n = 0 then 0 else Suc (bitlen (n div 2)))"

declare bitlen.simps [simp del]

definition rne_div :: "nat \<Rightarrow> nat \<Rightarrow> nat" where
  "rne_div a b =
     (let q = a div b; r = a mod b
      in if 2 * r < b then q else if b < 2 * r then q + 1 else if even q then q else q + 1)"

definition round53 :: "int \<Rightarrow> int" where
  "round53 K =
     (let a = nat \<bar>K\<bar>
      in if a < 2 ^ 53 then K
         else (let s = bitlen a - 53 in sgn K * int (rne_div a (2 ^ s) * 2 ^ s)))"

definition mul64 :: "draw \<Rightarrow> int \<Rightarrow> int \<times> nat" where
  "mul64 r n = (round53 (int (fst r) * n), snd r)"

definition half64 :: "int \<times> nat \<Rightarrow> int \<times> nat" where
  "half64 v =
     (if snd v < 1074 then (fst v, snd v + 1)
      else (sgn (fst v) * int (rne_div (nat \<bar>fst v\<bar>) 2), snd v))"

definition floor64 :: "int \<times> nat \<Rightarrow> int" where
  "floor64 v = fst v div 2 ^ snd v"

text \<open>\<^verbatim>\<open>Math.floor(Math.random() * 4) as Direction\<close>; the index is below 4 as the draw is below 1.\<close>

definition randomDir :: "draw \<Rightarrow> Direction" where
  "randomDir r =
     (let index = floor64 (mul64 r 4)
      in if index = 0 then Up else if index = 1 then Down else if index = 2 then Left else Right)"

text \<open>
  \<^verbatim>\<open>Math.floor(Math.random() * (this.width - 1) / 2)\<close>: the product is rounded to binary64,
  then halved, then floored. The draw for \<open>x\<close> is taken first, then the draw for \<open>z\<close>.
\<close>

definition randomOddCell :: "WilsonMaze \<Rightarrow> draw \<Rightarrow> draw \<Rightarrow> Vector2" where
  "randomOddCell m rx rz =
     (let x = floor64 (half64 (mul64 rx (width m - 1)));
          z = floor64 (half64 (mul64 rz (height m - 1)))
      in (2 * x + 1, 2 * z + 1))"

subsection \<open>The random walk\<close>

text \<open>
  The loop of \<^verbatim>\<open>WilsonMaze.randomWalk\<close>. It returns the recorded path and the draws
  left over. \<^verbatim>\<open>continue\<close> is the first recursive call, \<^verbatim>\<open>break\<close> the result
  \<open>Some (path', rs)\<close>.
\<close>

fun randomWalk_loop :: "WilsonMaze \<Rightarrow> path \<Rightarrow> Vector2 \<Rightarrow> draw list \<Rightarrow> (path \<times> draw list) option" where
  "randomWalk_loop m pth cur [] =
     (if getCellType m (fst cur) (snd cur) = Some Solid then None else Some (pth, []))"
| "randomWalk_loop m pth cur (r # rs) =
     (if getCellType m (fst cur) (snd cur) = Some Solid then
        (let dir = randomDir r;
             nextPos = stepIn cur dir 2
         in if fst nextPos < 0 \<or> snd nextPos < 0 \<or> fst nextPos > width m - 1 \<or> snd nextPos > height m - 1
            then randomWalk_loop m pth cur rs
            else (let pth' = pth(hash cur \<mapsto> dir)
                  in if getCellType m (fst nextPos) (snd nextPos) \<noteq> Some Solid
                     then Some (pth', rs)
                     else randomWalk_loop m pth' nextPos rs))
      else Some (pth, r # rs))"

definition randomWalk :: "WilsonMaze \<Rightarrow> Vector2 \<Rightarrow> draw list \<Rightarrow> (path \<times> draw list) option" where
  "randomWalk m start rs = randomWalk_loop m Map.empty start rs"

subsection \<open>Carving\<close>

text \<open>The number of solid entries of the array: it bounds the inner loop of \<^verbatim>\<open>generateMaze\<close>.\<close>

definition solidCount :: "WilsonMaze \<Rightarrow> nat" where
  "solidCount m = card {i. fmlookup (cells m) i = Some Solid}"

lemma finite_solid: "finite {i. fmlookup (cells m) i = Some Solid}"
  by (rule finite_subset [OF _ finite_fmdom' [of "cells m"]]) (auto intro: fmdom'I)

lemma solidCount_carve:
  assumes "getCellType m x z = Some Solid"
  shows "solidCount (setCellType (setCellType m x z Empty) bx bz Empty) < solidCount m"
proof -
  let ?m' = "setCellType (setCellType m x z Empty) bx bz Empty"
  have "{i. fmlookup (cells ?m') i = Some Solid} \<subseteq> {i. fmlookup (cells m) i = Some Solid} - {linearize m x z}"
    by (auto simp: setCellType_def linearize_def split: if_splits)
  moreover have "linearize m x z \<in> {i. fmlookup (cells m) i = Some Solid}"
    using assms by (simp add: getCellType_def)
  ultimately have "{i. fmlookup (cells ?m') i = Some Solid} \<subset> {i. fmlookup (cells m) i = Some Solid}"
    by blast
  then show ?thesis
    unfolding solidCount_def by (rule psubset_card_mono [OF finite_solid])
qed

text \<open>
  The inner loop of \<^verbatim>\<open>generateMaze\<close>, with the counter it decrements. When the path
  has no entry for the current cell, \<^verbatim>\<open>path.get\<close> gives \<^verbatim>\<open>undefined\<close>, \<^verbatim>\<open>stepIn\<close>
  returns \<^verbatim>\<open>undefined\<close> and reading \<^verbatim>\<open>between.x\<close> throws a TypeError.
\<close>

function carve :: "WilsonMaze \<Rightarrow> path \<Rightarrow> Vector2 \<Rightarrow> int \<Rightarrow> error + (WilsonMaze \<times> int)" where
  "carve m pth cur unvisited =
     (if getCellType m (fst cur) (snd cur) = Some Solid then
        (let m1 = setCellType m (fst cur) (snd cur) Empty
         in case pth (hash cur) of
              None \<Rightarrow> Inl TypeError
            | Some dir \<Rightarrow>
                (let between = stepIn cur dir 1;
                     m2 = setCellType m1 (fst between) (snd between) Empty
                 in carve m2 pth (stepIn cur dir 2) (unvisited - 1)))
      else Inr (m, unvisited))"
  by pat_completeness auto
termination
  by (relation "measure (\<lambda>(m, pth, cur, unvisited). solidCount m)")
     (auto simp: solidCount_carve)

declare carve.simps [simp del]

lemma randomWalk_loop_length:
  "randomWalk_loop m pth cur rs = Some (pth', rs') \<Longrightarrow> length rs' \<le> length rs"
proof (induction m pth cur rs rule: randomWalk_loop.induct)
  case (1 m pth cur)
  then show ?case by (simp split: if_splits)
next
  case (2 m pth cur r rs)
  show ?case
  proof (cases "getCellType m (fst cur) (snd cur) = Some Solid")
    case False
    with "2.prems" show ?thesis by simp
  next
    case solid: True
    let ?n = "stepIn cur (randomDir r) 2"
    show ?thesis
    proof (cases "fst ?n < 0 \<or> snd ?n < 0 \<or> fst ?n > width m - 1 \<or> snd ?n > height m - 1")
      case True
      with solid "2.prems" have "randomWalk_loop m pth cur rs = Some (pth', rs')"
        by (simp add: Let_def)
      with "2.IH"(1) [OF solid refl refl True] show ?thesis by simp
    next
      case inb: False
      show ?thesis
      proof (cases "getCellType m (fst ?n) (snd ?n) \<noteq> Some Solid")
        case True
        with solid inb "2.prems" show ?thesis by (simp add: Let_def)
      next
        case False
        with solid inb "2.prems"
        have "randomWalk_loop m (pth(hash cur \<mapsto> randomDir r)) ?n rs = Some (pth', rs')"
          by (simp add: Let_def)
        then have "length rs' \<le> length rs"
          by (rule "2.IH"(2) [OF solid refl refl inb refl False])
        then show ?thesis by simp
      qed
    qed
  qed
qed

text \<open>The outer loop of \<^verbatim>\<open>generateMaze\<close>.\<close>

function generateMaze_loop :: "WilsonMaze \<Rightarrow> int \<Rightarrow> draw list \<Rightarrow> (error + WilsonMaze) option" where
  "generateMaze_loop m unvisited rs =
     (if unvisited > 0 then
        (case rs of
           rx # rz # rs1 \<Rightarrow>
             (let start = randomOddCell m rx rz
              in case randomWalk m start rs1 of
                   None \<Rightarrow> None
                 | Some (pth, rs2) \<Rightarrow>
                     (case carve m pth start unvisited of
                        Inl e \<Rightarrow> Some (Inl e)
                      | Inr (m', unvisited') \<Rightarrow> generateMaze_loop m' unvisited' rs2))
         | _ \<Rightarrow> None)
      else Some (Inr m))"
  by pat_completeness auto
termination
  by (relation "measure (\<lambda>(m, unvisited, rs). length rs)")
     (auto simp: randomWalk_def dest: randomWalk_loop_length)

declare generateMaze_loop.simps [simp del]

definition generateMaze :: "WilsonMaze \<Rightarrow> draw list \<Rightarrow> (error + WilsonMaze) option" where
  "generateMaze m rs =
     generateMaze_loop m ((width m div 2) * (height m div 2) - 1) rs"

subsection \<open>The constructor\<close>

text \<open>The two nested loops that fill the fresh array with \<^verbatim>\<open>CellType.Solid\<close>.\<close>

definition initCells :: "int \<Rightarrow> int \<Rightarrow> (int, CellType) fmap" where
  "initCells w h =
     fold (\<lambda>z c. fold (\<lambda>x c'. fmupd (z * w + x) Solid c') [0..w - 1] c) [0..h - 1] fmempty"

text \<open>
  \<^verbatim>\<open>new Array(n)\<close> throws a RangeError unless \<open>0 \<le> n < 2^32\<close>. The optional
  arguments \<^verbatim>\<open>startPos\<close> and \<^verbatim>\<open>goalPos\<close> (here \<open>startArg\<close>, \<open>goalArg\<close>) are
  \<open>None\<close> when left out.
\<close>

definition roundUpOdd :: "int \<Rightarrow> int" where
  "roundUpOdd n = n + (if n smod 2 = 0 then 1 else 0)"

definition WilsonMaze_new ::
  "int \<Rightarrow> int \<Rightarrow> Vector2 option \<Rightarrow> Vector2 option \<Rightarrow> draw list \<Rightarrow> (error + WilsonMaze) option" where
  "WilsonMaze_new w h startArg goalArg rs =
     (let w' = roundUpOdd w;
          h' = roundUpOdd h;
          start = (case startArg of None \<Rightarrow> (1, 1) | Some p \<Rightarrow> p);
          goal = (case goalArg of None \<Rightarrow> (w' - 2, h' - 2) | Some p \<Rightarrow> p);
          m0 = \<lparr>width = w', height = h', cells = fmempty,
                startIndex = 0, goalIndex = 0\<rparr>;
          si = linearize m0 (fst start) (snd start);
          gi = linearize m0 (fst goal) (snd goal)
      in if w' * h' < 0 \<or> w' * h' \<ge> 2 ^ 32 then Some (Inl RangeError)
         else generateMaze
                \<lparr>width = w', height = h',
                 cells = fmupd si Empty (initCells w' h'),
                 startIndex = si, goalIndex = gi\<rparr> rs)"

section \<open>Basic facts\<close>

lemma smod_two_iff: "(n::int) smod 2 = 0 \<longleftrightarrow> even n"
  by (auto simp: signed_modulo_int_def sgn_if abs_if)

lemma roundUpOdd_eq: "roundUpOdd n = (if even n then n + 1 else n)"
  by (simp add: roundUpOdd_def smod_two_iff)

lemma roundUpOdd_odd: "odd (roundUpOdd n)"
  by (simp add: roundUpOdd_eq)

lemma roundUpOdd_idem: "roundUpOdd (roundUpOdd n) = roundUpOdd n"
  by (simp add: roundUpOdd_eq)

lemma fold_row_lookup:
  "fmlookup (fold (\<lambda>x c'. fmupd (f x) Solid c') xs c) i =
     (if i \<in> f ` set xs then Some Solid else fmlookup c i)"
  by (induction xs arbitrary: c) auto

lemma fold_rows_lookup:
  "fmlookup (fold (\<lambda>z c. fold (\<lambda>x c'. fmupd (g z x) Solid c') xs c) zs c0) i =
     (if \<exists>z\<in>set zs. \<exists>x\<in>set xs. i = g z x then Some Solid else fmlookup c0 i)"
proof (induction zs arbitrary: c0)
  case Nil
  then show ?case by simp
next
  case (Cons z zs)
  show ?case
    by (simp add: Cons.IH fold_row_lookup [where f = "g z"]) blast
qed

lemma initCells_lookup_ex:
  "fmlookup (initCells w h) i =
     (if \<exists>z\<in>{0..h - 1}. \<exists>x\<in>{0..w - 1}. i = z * w + x then Some Solid else None)"
  unfolding initCells_def by (simp add: fold_rows_lookup [where g = "\<lambda>z x. z * w + x"])

lemma index_decompose:
  assumes "0 < (w::int)"
  shows "(\<exists>z\<in>{0..h - 1}. \<exists>x\<in>{0..w - 1}. i = z * w + x) \<longleftrightarrow> 0 \<le> i \<and> i < w * h"
proof
  assume "\<exists>z\<in>{0..h - 1}. \<exists>x\<in>{0..w - 1}. i = z * w + x"
  then obtain z x where zx: "0 \<le> z" "z \<le> h - 1" "0 \<le> x" "x \<le> w - 1" "i = z * w + x"
    by auto
  have "z * w + x < (z + 1) * w" using zx by (simp add: algebra_simps)
  also have "\<dots> \<le> h * w" using zx assms by (intro mult_right_mono) auto
  finally show "0 \<le> i \<and> i < w * h" using zx assms by (simp add: mult.commute)
next
  assume i: "0 \<le> i \<and> i < w * h"
  have "i div w < h"
  proof (rule ccontr)
    assume "\<not> i div w < h"
    then have "h * w \<le> (i div w) * w" using assms by (intro mult_right_mono) auto
    also have "\<dots> \<le> i" using assms by (metis mult.commute pos_mod_sign add_increasing2 mult_div_mod_eq order_refl)
    finally show False using i by (simp add: mult.commute)
  qed
  moreover have "0 \<le> i div w" using i assms by (simp add: pos_imp_zdiv_nonneg_iff)
  moreover have "0 \<le> i mod w" "i mod w < w" using assms by simp_all
  moreover have "i = (i div w) * w + i mod w" by simp
  ultimately show "\<exists>z\<in>{0..h - 1}. \<exists>x\<in>{0..w - 1}. i = z * w + x"
    by (intro bexI [where x = "i div w"] bexI [where x = "i mod w"]) auto
qed

lemma initCells_lookup:
  "0 < w \<Longrightarrow> fmlookup (initCells w h) i = (if 0 \<le> i \<and> i < w * h then Some Solid else None)"
  by (simp add: initCells_lookup_ex index_decompose)

lemma setCellType_fields [simp]:
  "width (setCellType m x z c) = width m"
  "height (setCellType m x z c) = height m"
  "startIndex (setCellType m x z c) = startIndex m"
  "goalIndex (setCellType m x z c) = goalIndex m"
  by (simp_all add: setCellType_def)

lemma carve_fields:
  "carve m pth cur n = Inr (m', n') \<Longrightarrow>
     width m' = width m \<and> height m' = height m \<and> startIndex m' = startIndex m \<and> goalIndex m' = goalIndex m"
proof (induction m pth cur n rule: carve.induct)
  case (1 m pth cur n)
  show ?case
  proof (cases "getCellType m (fst cur) (snd cur) = Some Solid")
    case False
    with "1.prems" show ?thesis by (simp add: carve.simps)
  next
    case True
    with "1.prems" obtain dir where dir: "pth (hash cur) = Some dir"
      by (cases "pth (hash cur)") (auto simp: carve.simps [of m])
    let ?m1 = "setCellType m (fst cur) (snd cur) Empty"
    let ?b = "stepIn cur dir 1"
    let ?m2 = "setCellType ?m1 (fst ?b) (snd ?b) Empty"
    from "1.prems" True dir have "carve ?m2 pth (stepIn cur dir 2) (n - 1) = Inr (m', n')"
      by (simp add: carve.simps [of m] Let_def)
    from "1.IH" [OF True refl dir refl refl this] show ?thesis by simp
  qed
qed

lemma generateMaze_loop_fields:
  "generateMaze_loop m n rs = Some (Inr m') \<Longrightarrow>
     width m' = width m \<and> height m' = height m \<and> startIndex m' = startIndex m \<and> goalIndex m' = goalIndex m"
proof (induction m n rs rule: generateMaze_loop.induct)
  case (1 m n rs)
  show ?case
  proof (cases "n > 0")
    case False
    with "1.prems" show ?thesis by (simp add: generateMaze_loop.simps)
  next
    case True
    with "1.prems" obtain rx rz rs1 where rs: "rs = rx # rz # rs1"
      by (cases rs; cases "tl rs") (auto simp: generateMaze_loop.simps [of m])
    let ?s = "randomOddCell m rx rz"
    from "1.prems" True rs obtain pth rs2 where w: "randomWalk m ?s rs1 = Some (pth, rs2)"
      by (cases "randomWalk m ?s rs1") (auto simp: generateMaze_loop.simps [of m])
    from "1.prems" True rs w obtain m1 n1 where c: "carve m pth ?s n = Inr (m1, n1)"
      by (cases "carve m pth ?s n") (auto simp: generateMaze_loop.simps [of m])
    from "1.prems" True rs w c have "generateMaze_loop m1 n1 rs2 = Some (Inr m')"
      by (simp add: generateMaze_loop.simps [of m])
    from "1.IH" [OF True rs refl refl w refl c refl this] carve_fields [OF c]
    show ?thesis by simp
  qed
qed

lemma WilsonMaze_new_dims:
  assumes "WilsonMaze_new w h sa ga rs = Some (Inr m)"
  shows "width m = roundUpOdd w" "height m = roundUpOdd h"
  using assms generateMaze_loop_fields [of _ _ rs m]
  by (auto simp: WilsonMaze_new_def generateMaze_def Let_def split: if_splits)

lemma smod_nonneg: "0 \<le> a \<Longrightarrow> 0 < b \<Longrightarrow> a smod b = a mod (b::int)"
  by (cases "a = 0") (simp_all add: signed_modulo_int_def)

section \<open>The round trip of the index conversions\<close>

lemma delin_lin:
  assumes "0 \<le> x" "x < width m" "0 \<le> z" "z < height m"
  shows "delinearize m (linearize m x z) = (x, z)"
proof -
  have w: "0 < width m" using assms by simp
  have nn: "0 \<le> z * width m + x" using assms w by simp
  have "(z * width m + x) smod width m = (z * width m + x) mod width m"
    using nn w by (rule smod_nonneg)
  also have "\<dots> = x" using assms by simp
  finally have 1: "(z * width m + x) smod width m = x" .
  have 2: "(z * width m + x) div width m = z" using assms w by simp
  show ?thesis by (simp add: delinearize_def linearize_def 1 2)
qed


text \<open>
  Claim C6: for every coordinate \<open>(x, z)\<close> with \<open>0 \<le> x < width\<close> and \<open>0 \<le> z < height\<close>,
  \<open>delinearize (linearize (x, z)) = (x, z)\<close>, where \<open>linearize (x, z) = z * width + x\<close>.
\<close>

theorem delinearize_linearize:
  assumes "0 \<le> x" "x < width m" "0 \<le> z" "z < height m"
  shows "delinearize m (linearize m x z) = (x, z)"
  using assms by (rule delin_lin)

text \<open>The round trip at \<open>(1, 3)\<close> of a 3 by 5 maze.\<close>

theorem delinearize_linearize_witness:
  "let m = \<lparr>width = 3, height = 5, cells = fmempty, startIndex = 4, goalIndex = 10\<rparr>
   in (0::int) \<le> 1 \<and> 1 < width m \<and> (0::int) \<le> 3 \<and> 3 < height m \<and>
      delinearize m (linearize m 1 3) = (1, 3)"
  using delinearize_linearize
    [of 1 "\<lparr>width = 3, height = 5, cells = fmempty, startIndex = 4, goalIndex = 10\<rparr>" 3]
  by simp

section \<open>Normalisation of the dimensions\<close>

text \<open>
  Claim C7: whenever the constructor returns a maze, its width and height are odd, each is
  at least the requested value and exceeds it by at most 1 (an even request is incremented,
  an odd one is kept), and the normalisation comes before everything else: the constructor
  called with the requested dimensions is the constructor called with the normalised ones.
\<close>

theorem normalized_dimensions:
  assumes "WilsonMaze_new w h sa ga rs = Some (Inr m)"
  shows "odd (width m) \<and> odd (height m) \<and>
         w \<le> width m \<and> width m \<le> w + 1 \<and> h \<le> height m \<and> height m \<le> h + 1 \<and>
         width m = (if even w then w + 1 else w) \<and>
         height m = (if even h then h + 1 else h) \<and>
         WilsonMaze_new (width m) (height m) sa ga rs = WilsonMaze_new w h sa ga rs"
proof -
  note d = WilsonMaze_new_dims [OF assms]
  have "WilsonMaze_new (roundUpOdd w) (roundUpOdd h) sa ga rs = WilsonMaze_new w h sa ga rs"
    by (simp add: WilsonMaze_new_def roundUpOdd_idem)
  then show ?thesis using d by (simp add: roundUpOdd_eq)
qed

lemma WilsonMaze_new_2_2:
  "WilsonMaze_new 2 2 None None rs =
     Some (Inr \<lparr>width = 3, height = 3, cells = fmupd 4 Empty (initCells 3 3),
                 startIndex = 4, goalIndex = 4\<rparr>)"
  by (simp add: WilsonMaze_new_def roundUpOdd_def linearize_def generateMaze_def
      generateMaze_loop.simps)

text \<open>The request \<open>(2, 2)\<close> gives a 3 by 3 maze.\<close>

theorem normalized_dimensions_witness:
  "WilsonMaze_new 2 2 None None [] =
     Some (Inr \<lparr>width = 3, height = 3, cells = fmupd 4 Empty (initCells 3 3),
                 startIndex = 4, goalIndex = 4\<rparr>) \<and>
   width \<lparr>width = 3, height = 3, cells = fmupd 4 Empty (initCells 3 3),
          startIndex = 4, goalIndex = 4\<rparr> = 2 + 1 \<and>
   WilsonMaze_new 3 3 None None [] = WilsonMaze_new 2 2 None None []"
  using normalized_dimensions [OF WilsonMaze_new_2_2 [of "[]"]] WilsonMaze_new_2_2 [of "[]"]
  by simp

section \<open>Rejection of dimensions\<close>

lemma generateMaze_trivial:
  "(width m div 2) * (height m div 2) - 1 \<le> 0 \<Longrightarrow> generateMaze m rs = Some (Inr m)"
  by (simp add: generateMaze_def generateMaze_loop.simps)

text \<open>An iteration that chooses a cell that is not \<open>Solid\<close> changes nothing.\<close>

lemma randomWalk_not_solid:
  "getCellType m (fst c) (snd c) \<noteq> Some Solid \<Longrightarrow> randomWalk m c rs = Some (Map.empty, rs)"
  by (cases rs) (simp_all add: randomWalk_def)

lemma carve_not_solid:
  "getCellType m (fst c) (snd c) \<noteq> Some Solid \<Longrightarrow> carve m pth c n = Inr (m, n)"
  by (simp add: carve.simps)

lemma generateMaze_loop_carved_start:
  assumes "0 < n" "getCellType m (fst (randomOddCell m rx rz)) (snd (randomOddCell m rx rz)) \<noteq> Some Solid"
  shows "generateMaze_loop m n (rx # rz # rs) = generateMaze_loop m n rs"
  using assms
  by (subst generateMaze_loop.simps) (simp add: randomWalk_not_solid carve_not_solid)

lemma generateMaze_loop_no_solid:
  assumes "\<forall>i. fmlookup (cells m) i \<noteq> Some Solid" "0 < n"
  shows "generateMaze_loop m n rs = None"
proof (induction rs rule: induct_list012)
  case 1
  show ?case using assms(2) by (simp add: generateMaze_loop.simps)
next
  case (2 x)
  show ?case using assms(2) by (simp add: generateMaze_loop.simps)
next
  case (3 rx rz rs)
  have "getCellType m (fst (randomOddCell m rx rz)) (snd (randomOddCell m rx rz)) \<noteq> Some Solid"
    using assms(1) by (simp add: getCellType_def)
  from generateMaze_loop_carved_start [OF assms(2) this] "3.IH"(1) show ?case by simp
qed

lemma initCells_negative: "h \<le> 0 \<Longrightarrow> initCells w h = fmempty"
  by (simp add: initCells_def)

text \<open>
  Claim C3 says that \<open>generate(0, 5)\<close> is rejected with an InvalidDimension error before any
  allocation. The constructor has no such check: the width 0 becomes 1 and a maze of width 1
  and height 5 is returned.
\<close>

theorem generate_0_5_returns_maze:
  "WilsonMaze_new 0 5 None None [] =
     Some (Inr \<lparr>width = 1, height = 5, cells = fmupd 2 Empty (initCells 1 5),
                 startIndex = 2, goalIndex = 2\<rparr>)"
  by (simp add: WilsonMaze_new_def roundUpOdd_def linearize_def generateMaze_def
      generateMaze_loop.simps)

text \<open>
  Claim C3 as amended: the constructor has no check of the dimensions. For a call with a
  width or height that is not positive, with \<open>W\<close> and \<open>H\<close> the normalised dimensions, exactly
  one of three things happens. If \<open>W * H\<close> is negative or at least \<open>2^32\<close>, the allocation of
  the grid throws a RangeError and no maze is returned. Otherwise, if
  \<open>floor(W / 2) * floor(H / 2) - 1 \<le> 0\<close>, the maze of dimensions \<open>W\<close> and \<open>H\<close> is returned as
  the constructor filled it, with the start index carved, whatever the draws. Otherwise the
  generation loop never ends: whatever the draws, neither a maze nor an error is returned.
\<close>

theorem constructor_rejection:
  assumes "w \<le> 0 \<or> h \<le> 0"
  shows "WilsonMaze_new w h sa ga rs =
    (let W = roundUpOdd w; H = roundUpOdd h;
         start = (case sa of None \<Rightarrow> (1, 1) | Some p \<Rightarrow> p);
         goal = (case ga of None \<Rightarrow> (W - 2, H - 2) | Some p \<Rightarrow> p)
     in if W * H < 0 \<or> 2 ^ 32 \<le> W * H then Some (Inl RangeError)
        else if (W div 2) * (H div 2) - 1 \<le> 0 then
          Some (Inr \<lparr>width = W, height = H,
                     cells = fmupd (snd start * W + fst start) Empty (initCells W H),
                     startIndex = snd start * W + fst start,
                     goalIndex = snd goal * W + fst goal\<rparr>)
        else None)"
proof -
  let ?W = "roundUpOdd w" and ?H = "roundUpOdd h"
  let ?start = "case sa of None \<Rightarrow> (1, 1) | Some p \<Rightarrow> p"
  let ?goal = "case ga of None \<Rightarrow> (?W - 2, ?H - 2) | Some p \<Rightarrow> p"
  define m where "m = \<lparr>width = ?W, height = ?H,
                     cells = fmupd (snd ?start * ?W + fst ?start) Empty (initCells ?W ?H),
                     startIndex = snd ?start * ?W + fst ?start,
                     goalIndex = snd ?goal * ?W + fst ?goal\<rparr>"
  have new: "WilsonMaze_new w h sa ga rs =
      (if ?W * ?H < 0 \<or> 2 ^ 32 \<le> ?W * ?H then Some (Inl RangeError) else generateMaze m rs)"
    by (simp add: WilsonMaze_new_def Let_def linearize_def m_def)
  have gen: "generateMaze m rs = None"
    if r: "\<not> (?W * ?H < 0 \<or> 2 ^ 32 \<le> ?W * ?H)" and c: "\<not> (?W div 2) * (?H div 2) - 1 \<le> 0"
  proof -
    have oW: "odd ?W" and oH: "odd ?H" by (simp_all add: roundUpOdd_odd)
    have neg: "?W < 0 \<and> ?H < 0"
    proof (rule ccontr)
      assume n: "\<not> (?W < 0 \<and> ?H < 0)"
      have W0: "?W \<noteq> 0" and H0: "?H \<noteq> 0" using oW oH by auto
      from r have "0 \<le> ?W * ?H" by simp
      with n W0 H0 have pos: "0 < ?W" "0 < ?H"
        by (auto simp: zero_le_mult_iff)
      from assms have "?W = 1 \<or> ?H = 1"
        using pos by (auto simp: roundUpOdd_eq split: if_splits)
      then have "(?W div 2) * (?H div 2) = 0" by auto
      with c show False by simp
    qed
    then have "initCells ?W ?H = fmempty" by (simp add: initCells_negative)
    then have "\<forall>i. fmlookup (cells m) i \<noteq> Some Solid" by (simp add: m_def)
    from generateMaze_loop_no_solid [OF this] c show ?thesis
      by (simp add: generateMaze_def m_def)
  qed
  have triv: "generateMaze m rs = Some (Inr m)" if "(?W div 2) * (?H div 2) - 1 \<le> 0"
    by (rule generateMaze_trivial) (use that in \<open>simp add: m_def\<close>)
  show ?thesis
    unfolding new Let_def m_def [symmetric]
    using gen triv by auto
qed

text \<open>
  \<open>generate(-2, 5)\<close>, \<open>generate(-65537, -65537)\<close> and \<open>generate(0, 4294967296)\<close> are
  rejected by the allocation, \<open>generate(0, 5)\<close> and \<open>generate(-1, -1)\<close> return a maze,
  \<open>generate(-3, -3)\<close> uses up its draws without returning.
\<close>

theorem constructor_rejection_witness:
  "WilsonMaze_new (- 2) 5 None None [] = Some (Inl RangeError) \<and>
   WilsonMaze_new (- 65537) (- 65537) None None [] = Some (Inl RangeError) \<and>
   WilsonMaze_new 0 4294967296 None None [] = Some (Inl RangeError) \<and>
   WilsonMaze_new 0 5 None None [] =
     Some (Inr \<lparr>width = 1, height = 5, cells = fmupd 2 Empty (initCells 1 5),
                 startIndex = 2, goalIndex = 2\<rparr>) \<and>
   WilsonMaze_new (- 1) (- 1) None None [] =
     Some (Inr \<lparr>width = - 1, height = - 1, cells = fmupd 0 Empty (initCells (- 1) (- 1)),
                 startIndex = 0, goalIndex = 0\<rparr>) \<and>
   WilsonMaze_new (- 3) (- 3) None None [(0, 0), (0, 0), (0, 0), (0, 0)] = None"
  using constructor_rejection [of "- 2" 5 None None "[]"]
    constructor_rejection [of "- 65537" "- 65537" None None "[]"]
    constructor_rejection [of 0 4294967296 None None "[]"]
    constructor_rejection [of 0 5 None None "[]"]
    constructor_rejection [of "- 1" "- 1" None None "[]"]
    constructor_rejection [of "- 3" "- 3" None None "[(0, 0), (0, 0), (0, 0), (0, 0)]"]
  by (simp add: roundUpOdd_eq Let_def)

section \<open>The choice of the cell a walk starts from\<close>

text \<open>The rounding of the product and of its half never takes the index out of range.\<close>

lemma bitlen_bounds: "0 < n \<Longrightarrow> 2 ^ (bitlen n - 1) \<le> n \<and> n < 2 ^ bitlen n"
proof (induction n rule: bitlen.induct)
  case (1 n)
  show ?case
  proof (cases "n div 2 = 0")
    case True
    with "1.prems" have "n = 1" by (simp add: div_eq_0_iff)
    moreover have "bitlen (Suc 0) = 1"
      by (simp add: bitlen.simps [of "Suc 0"] bitlen.simps [of 0])
    ultimately show ?thesis by simp
  next
    case False
    then have pos: "0 < n div 2" by simp
    from "1.IH" [OF _ pos] "1.prems"
    have IH: "2 ^ (bitlen (n div 2) - 1) \<le> n div 2" "n div 2 < 2 ^ bitlen (n div 2)" by simp_all
    have bl: "bitlen n = Suc (bitlen (n div 2))" using "1.prems" by (subst bitlen.simps) simp
    have b1: "0 < bitlen (n div 2)" using pos by (subst bitlen.simps) simp
    then have e: "bitlen n - 1 = Suc (bitlen (n div 2) - 1)" using bl by simp
    have "2 ^ (bitlen n - 1) = 2 * 2 ^ (bitlen (n div 2) - 1)" unfolding e by simp
    also have "\<dots> \<le> 2 * (n div 2)" using IH(1) by simp
    also have "\<dots> \<le> n" by simp
    finally have lo: "2 ^ (bitlen n - 1) \<le> n" .
    have "n < 2 * (n div 2) + 2" by presburger
    also have "\<dots> \<le> 2 * 2 ^ bitlen (n div 2)" using IH(2) by simp
    finally have "n < 2 ^ bitlen n" unfolding bl by simp
    with lo show ?thesis by simp
  qed
qed

lemma rne_div_bound:
  assumes "0 < b"
  shows "2 * (rne_div a b * b) \<le> 2 * a + b"
proof -
  have d: "a = (a div b) * b + a mod b" by simp
  have m: "a mod b < b" using assms by simp
  show ?thesis
  proof (cases "2 * (a mod b) < b")
    case True
    then have "rne_div a b = a div b" by (simp add: rne_div_def Let_def)
    moreover have "(a div b) * b \<le> a" by simp
    ultimately have "2 * (rne_div a b * b) \<le> 2 * a" by simp
    then show ?thesis by simp
  next
    case False
    then have "rne_div a b \<le> a div b + 1" by (simp add: rne_div_def Let_def)
    then have "rne_div a b * b \<le> (a div b + 1) * b" by (rule mult_right_mono) simp
    also have "\<dots> = (a div b) * b + b" by (simp add: algebra_simps)
    finally have "2 * (rne_div a b * b) \<le> 2 * ((a div b) * b) + 2 * b" by simp
    also have "\<dots> = 2 * (a - a mod b) + 2 * b" by (simp add: minus_mod_eq_div_mult)
    also have "\<dots> \<le> 2 * a + b" using False m mod_less_eq_dividend [of a b] by linarith
    finally show ?thesis .
  qed
qed

text \<open>The product of a draw with a positive integer stays below the integer.\<close>

lemma round53_draw:
  assumes "k < 2 ^ 53" "k < 2 ^ j" "0 < n"
  shows "0 \<le> round53 (int k * n)" "round53 (int k * n) < n * 2 ^ j"
    "round53 (int k * n) \<le> 2 * (int k * n)"
proof -
  define K where "K = int k * n"
  define a where "a = nat \<bar>K\<bar>"
  have K0: "0 \<le> K" using assms by (simp add: K_def)
  have a: "int a = K" using K0 by (simp add: a_def)
  have kj: "int k + 1 \<le> 2 ^ j"
  proof -
    from assms(2) have "Suc k \<le> 2 ^ j" by simp
    then have "int (Suc k) \<le> int (2 ^ j)" by (simp only: of_nat_le_iff)
    then show ?thesis by simp
  qed
  have k53: "int k < 2 ^ 53"
  proof -
    from assms(1) have "int k < int (2 ^ 53)" by (simp only: of_nat_less_iff)
    then show ?thesis by simp
  qed
  have exact: "K < n * 2 ^ j"
  proof -
    have "K < n * (int k + 1)" using assms(3) by (simp add: K_def algebra_simps)
    also have "\<dots> \<le> n * 2 ^ j" using kj assms(3) by (intro mult_left_mono) simp_all
    finally show ?thesis .
  qed
  have r0: "0 \<le> round53 K" using K0 by (simp add: round53_def Let_def sgn_if)
  have "round53 K < n * 2 ^ j \<and> round53 K \<le> 2 * K"
  proof (cases "a < 2 ^ 53")
    case True
    then have "round53 K = K" by (simp add: round53_def Let_def a_def)
    with exact K0 show ?thesis by simp
  next
    case False
    define s where "s = bitlen a - 53"
    define A where "A = rne_div a (2 ^ s) * 2 ^ s"
    have apos: "0 < a" using False by (cases "a = 0") simp_all
    have Kpos: "0 < K" using apos a by linarith
    from bitlen_bounds [OF apos] have lo: "2 ^ (bitlen a - 1) \<le> a" and hi: "a < 2 ^ bitlen a"
      by simp_all
    have "(2::nat) ^ 53 \<le> a" using False by simp
    with hi have "(2::nat) ^ 53 < 2 ^ bitlen a" by linarith
    then have L: "53 < bitlen a" by (rule power_less_imp_less_exp [rotated]) simp
    then have e: "bitlen a - 1 = s + 52" by (simp add: s_def)
    have lo': "2 ^ s * 2 ^ 52 \<le> a" using lo unfolding e by (simp add: power_add)
    have r: "round53 K = int A"
      using False Kpos by (simp add: round53_def Let_def s_def A_def a_def)
    have b: "2 * A \<le> 2 * a + 2 ^ s" unfolding A_def by (rule rne_div_bound) simp
    have "(2::nat) ^ s \<le> 2 ^ s * 2 ^ 52" by simp
    from this lo' have sa: "2 ^ s \<le> a" by (rule le_trans)
    from b sa have "A \<le> 2 * a" by linarith
    then have "int A \<le> int (2 * a)" by (simp only: of_nat_le_iff)
    then have second: "round53 K \<le> 2 * K" unfolding r using a by simp
    have "int (2 ^ s * 2 ^ 52) \<le> int a" using lo' by (simp only: of_nat_le_iff)
    then have "2 ^ s * 2 ^ 52 \<le> K" unfolding a by simp
    also have "K < 2 ^ 53 * n" using k53 assms(3) by (simp add: K_def)
    finally have "(2::int) ^ s * 2 ^ 52 < (2 * n) * 2 ^ 52" by simp
    then have sn: "(2::int) ^ s < 2 * n" by (rule mult_right_less_imp_less) simp
    from b have "int (2 * A) \<le> int (2 * a + 2 ^ s)" by (simp only: of_nat_le_iff)
    then have "2 * int A \<le> 2 * K + 2 ^ s" using a by simp
    also have "\<dots> < 2 * K + 2 * n" using sn by simp
    also have "\<dots> = 2 * (n * (int k + 1))" by (simp add: K_def algebra_simps)
    also have "\<dots> \<le> 2 * (n * 2 ^ j)" using kj assms(3) by (intro mult_left_mono) simp_all
    finally have "int A < n * 2 ^ j" by simp
    with second r show ?thesis by simp
  qed
  with r0 show "0 \<le> round53 (int k * n)" "round53 (int k * n) < n * 2 ^ j"
    "round53 (int k * n) \<le> 2 * (int k * n)"
    by (simp_all add: K_def)
qed

lemma int_div_less:
  fixes A d m :: int
  assumes "0 < d" "A < m * d"
  shows "A div d < m"
proof (rule ccontr)
  assume "\<not> A div d < m"
  then have "m \<le> A div d" by simp
  then have "m * d \<le> (A div d) * d" using assms(1) by (intro mult_right_mono) simp_all
  also have "\<dots> \<le> A"
  proof -
    have "A = (A div d) * d + A mod d" by simp
    moreover have "0 \<le> A mod d" using assms(1) by simp
    ultimately show ?thesis by linarith
  qed
  finally show False using assms(2) by simp
qed

lemma rne_div_2_le: "rne_div a 2 \<le> a"
proof -
  have "2 * (rne_div a 2 * 2) \<le> 2 * a + 2" by (rule rne_div_bound) simp
  then have b: "2 * rne_div a 2 \<le> a + 1" by simp
  show ?thesis
  proof (cases "a = 0")
    case True
    then show ?thesis by (simp add: rne_div_def)
  next
    case False
    with b show ?thesis by linarith
  qed
qed

lemma mul64_range:
  assumes "isDraw r" "0 < n"
  shows "0 \<le> fst (mul64 r n)" "fst (mul64 r n) < n * 2 ^ snd r" "snd (mul64 r n) = snd r"
    "fst (mul64 r n) \<le> 2 * (int (fst r) * n)"
  using assms round53_draw [of "fst r" "snd r" n]
  by (simp_all add: mul64_def isDraw_def)

lemma floor64_mul64_range:
  assumes "isDraw r" "0 < n"
  shows "0 \<le> floor64 (mul64 r n)" "floor64 (mul64 r n) < n"
proof -
  note R = mul64_range [OF assms]
  show "0 \<le> floor64 (mul64 r n)" using R(1) by (simp add: floor64_def pos_imp_zdiv_nonneg_iff)
  show "floor64 (mul64 r n) < n"
    unfolding floor64_def R(3) by (rule int_div_less) (use R(2) in simp_all)
qed

lemma floor64_half64_mul64_range:
  assumes "isDraw r" "0 < k"
  shows "0 \<le> floor64 (half64 (mul64 r (2 * k)))" "floor64 (half64 (mul64 r (2 * k))) < k"
proof -
  define A where "A = fst (mul64 r (2 * k))"
  define j where "j = snd r"
  have k2: "0 < 2 * k" using assms(2) by simp
  note R = mul64_range [OF assms(1) k2]
  have A0: "0 \<le> A" using R(1) by (simp add: A_def)
  have Alt: "A < 2 * k * 2 ^ j" using R(2) by (simp add: A_def j_def)
  have sj: "snd (mul64 r (2 * k)) = j" using R(3) by (simp add: j_def)
  have "0 \<le> floor64 (half64 (mul64 r (2 * k))) \<and> floor64 (half64 (mul64 r (2 * k))) < k"
  proof (cases "j < 1074")
    case True
    then have h: "half64 (mul64 r (2 * k)) = (A, j + 1)" by (simp add: half64_def sj A_def)
    have "A div 2 ^ (j + 1) < k" by (rule int_div_less) (use Alt in simp_all)
    moreover have "0 \<le> A div 2 ^ (j + 1)" using A0 by (simp add: pos_imp_zdiv_nonneg_iff)
    ultimately show ?thesis unfolding h floor64_def by simp
  next
    case False
    define B where "B = int (rne_div (nat A) 2)"
    have h: "half64 (mul64 r (2 * k)) = (sgn A * B, j)"
      using False A0 by (simp add: half64_def sj A_def B_def)
    have s: "sgn A * B = B"
    proof (cases "A = 0")
      case True
      then show ?thesis by (simp add: B_def rne_div_def)
    next
      case False
      with A0 show ?thesis by (simp add: sgn_if)
    qed
    have B0: "0 \<le> B" by (simp add: B_def)
    have "rne_div (nat A) 2 \<le> nat A" by (rule rne_div_2_le)
    then have "int (rne_div (nat A) 2) \<le> int (nat A)" by (simp only: of_nat_le_iff)
    then have BA: "B \<le> A" using A0 by (simp add: B_def)
    have j: "j = 1074" using False assms(1) by (simp add: isDraw_def j_def)
    have "int (fst r) < int (2 ^ 53)" using assms(1) unfolding isDraw_def by (simp only: of_nat_less_iff)
    then have f53: "int (fst r) < 2 ^ 53" by simp
    have "A \<le> 2 * (int (fst r) * (2 * k))" using R(4) by (simp add: A_def)
    also have "\<dots> = (4 * k) * int (fst r)" by simp
    also have "\<dots> < (4 * k) * 2 ^ 53" using f53 assms(2) by (intro mult_strict_left_mono) simp_all
    also have "\<dots> = k * 2 ^ 55" by simp
    also have "\<dots> \<le> k * 2 ^ j" unfolding j using assms(2) by (intro mult_left_mono power_increasing) simp_all
    finally have "A < k * 2 ^ j" .
    with BA have "B < k * 2 ^ j" by simp
    then have "B div 2 ^ j < k" by (intro int_div_less) simp_all
    moreover have "0 \<le> B div 2 ^ j" using B0 by (simp add: pos_imp_zdiv_nonneg_iff)
    ultimately show ?thesis unfolding h s floor64_def by simp
  qed
  then show "0 \<le> floor64 (half64 (mul64 r (2 * k)))" "floor64 (half64 (mul64 r (2 * k))) < k"
    by simp_all
qed

lemma randomOddCell_range':
  assumes "odd (width m)" "3 \<le> width m" "odd (height m)" "3 \<le> height m"
    and "isDraw rx" "isDraw rz"
  shows "odd (fst (randomOddCell m rx rz))" "odd (snd (randomOddCell m rx rz))"
    "1 \<le> fst (randomOddCell m rx rz)" "fst (randomOddCell m rx rz) \<le> width m - 2"
    "1 \<le> snd (randomOddCell m rx rz)" "snd (randomOddCell m rx rz) \<le> height m - 2"
proof -
  obtain k where k: "width m = 2 * k + 1" using assms(1) by (auto elim: oddE)
  obtain l where l: "height m = 2 * l + 1" using assms(3) by (auto elim: oddE)
  have kpos: "0 < k" using k assms(2) by simp
  have lpos: "0 < l" using l assms(4) by simp
  note X = floor64_half64_mul64_range [OF assms(5) kpos]
  note Z = floor64_half64_mul64_range [OF assms(6) lpos]
  have fx: "fst (randomOddCell m rx rz) = 2 * floor64 (half64 (mul64 rx (2 * k))) + 1"
    by (simp add: randomOddCell_def Let_def k)
  have fz: "snd (randomOddCell m rx rz) = 2 * floor64 (half64 (mul64 rz (2 * l))) + 1"
    by (simp add: randomOddCell_def Let_def l)
  show "odd (fst (randomOddCell m rx rz))" unfolding fx by simp
  show "odd (snd (randomOddCell m rx rz))" unfolding fz by simp
  show "1 \<le> fst (randomOddCell m rx rz)" unfolding fx using X(1) by simp
  show "fst (randomOddCell m rx rz) \<le> width m - 2" unfolding fx k using X(2) by simp
  show "1 \<le> snd (randomOddCell m rx rz)" unfolding fz using Z(1) by simp
  show "snd (randomOddCell m rx rz) \<le> height m - 2" unfolding fz l using Z(2) by simp
qed

lemmas draw_eval = floor64_def half64_def mul64_def round53_def

text \<open>
  The rounding of the product is visible: in a grid of width 15, the draw
  \<open>2573485501354569 / 2^52\<close> (0.5714285714285714) gives the product \<open>8\<close> after rounding,
  hence the column 9, where the exact product is below 8; half that draw gives the column 5.
\<close>

lemma randomOddCell_rounds:
  "isDraw (2573485501354569, 52) \<and>
   randomOddCell \<lparr>width = 15, height = 15, cells = fmempty, startIndex = 16, goalIndex = 208\<rparr>
     (2573485501354569, 52) (0, 0) = (9, 1) \<and>
   randomOddCell \<lparr>width = 15, height = 15, cells = fmempty, startIndex = 16, goalIndex = 208\<rparr>
     (2573485501354569, 53) (0, 0) = (5, 1)"
  by (simp add: randomOddCell_def draw_eval isDraw_def rne_div_def
      bitlen.simps [of "numeral n" for n] bitlen.simps [of "Suc 0"] bitlen.simps [of 0] Let_def)

text \<open>
  Claim C5 says that the cell chosen to start a walk is never one that is already carved.
  The first iteration for a 3 by 5 maze with the draws 0 and 0 chooses the start cell
  \<open>(1, 1)\<close>, which is carved from the beginning.
\<close>

theorem carved_cell_chosen:
  "WilsonMaze_new 3 5 None None [(0, 0), (0, 0), (0, 0), (1, 1), (0, 0)] =
     generateMaze_loop \<lparr>width = 3, height = 5, cells = fmupd 4 Empty (initCells 3 5),
                         startIndex = 4, goalIndex = 10\<rparr> 1 [(0, 0), (0, 0), (0, 0), (1, 1), (0, 0)] \<and>
   randomOddCell \<lparr>width = 3, height = 5, cells = fmupd 4 Empty (initCells 3 5),
                   startIndex = 4, goalIndex = 10\<rparr> (0, 0) (0, 0) = (1, 1) \<and>
   getCellType \<lparr>width = 3, height = 5, cells = fmupd 4 Empty (initCells 3 5),
                 startIndex = 4, goalIndex = 10\<rparr> 1 1 = Some Empty"
  by (simp add: WilsonMaze_new_def roundUpOdd_def linearize_def generateMaze_def
      randomOddCell_def draw_eval getCellType_def)

text \<open>
  Claim C5 as amended: in a maze of odd dimensions at least 3, the cell chosen from two
  draws has odd coordinates within \<open>[1, width - 2]\<close> and \<open>[1, height - 2]\<close>; it may be carved
  already, and then the iteration records and carves nothing, leaves the counter as it is,
  and the loop goes on to choose again with the next draws.
\<close>

theorem randomOddCell_range:
  assumes "odd (width m)" "3 \<le> width m" "odd (height m)" "3 \<le> height m"
    and "isDraw rx" "isDraw rz"
  shows "odd (fst (randomOddCell m rx rz)) \<and> odd (snd (randomOddCell m rx rz)) \<and>
    1 \<le> fst (randomOddCell m rx rz) \<and> fst (randomOddCell m rx rz) \<le> width m - 2 \<and>
    1 \<le> snd (randomOddCell m rx rz) \<and> snd (randomOddCell m rx rz) \<le> height m - 2 \<and>
    (0 < n \<and> getCellType m (fst (randomOddCell m rx rz)) (snd (randomOddCell m rx rz)) \<noteq> Some Solid
       \<longrightarrow> generateMaze_loop m n (rx # rz # rs) = generateMaze_loop m n rs)"
  using randomOddCell_range' [OF assms] generateMaze_loop_carved_start [of n m rx rz rs]
  by simp

theorem randomOddCell_range_witness:
  "randomOddCell \<lparr>width = 3, height = 5, cells = fmupd 4 Empty (initCells 3 5),
                   startIndex = 4, goalIndex = 10\<rparr> (0, 0) (0, 0) = (1, 1) \<and>
   generateMaze_loop \<lparr>width = 3, height = 5, cells = fmupd 4 Empty (initCells 3 5),
                       startIndex = 4, goalIndex = 10\<rparr> 1 [(0, 0), (0, 0), (0, 0), (1, 1), (0, 0)] =
   generateMaze_loop \<lparr>width = 3, height = 5, cells = fmupd 4 Empty (initCells 3 5),
                       startIndex = 4, goalIndex = 10\<rparr> 1 [(0, 0), (1, 1), (0, 0)]"
  using randomOddCell_range [of "\<lparr>width = 3, height = 5, cells = fmupd 4 Empty (initCells 3 5),
                   startIndex = 4, goalIndex = 10\<rparr>" "(0, 0)" "(0, 0)" 1 "[(0, 0), (1, 1), (0, 0)]"]
  by (simp add: randomOddCell_def draw_eval isDraw_def getCellType_def linearize_def)

section \<open>The hash of a coordinate\<close>

lemma mask16: "(0xFFFF :: 32 word) = mask 16"
  by (simp add: mask_eq_exp_minus_1)

lemma hash_alt: "hash v = push_bit 16 (take_bit 16 (word_of_int (fst v))) OR take_bit 16 (word_of_int (snd v))"
  by (simp add: hash_def mask16 take_bit_eq_mask)

lemma hash_low: "take_bit 16 (hash v) = take_bit 16 (word_of_int (snd v) :: 32 word)"
  unfolding hash_alt by (rule bit_eqI) (auto simp: bit_simps)

lemma hash_high: "drop_bit 16 (hash v) = take_bit 16 (word_of_int (fst v) :: 32 word)"
  unfolding hash_alt by (rule bit_eqI) (auto simp: bit_simps)

lemma take16_word_of_int: "uint (take_bit 16 (word_of_int x :: 32 word)) = x mod 65536"
  by transfer (simp add: take_bit_eq_mod)

lemma hash_eq_iff:
  "hash (x, z) = hash (x', z') \<longleftrightarrow> x mod 65536 = x' mod 65536 \<and> z mod 65536 = z' mod 65536"
proof
  assume eq: "hash (x, z) = hash (x', z')"
  from arg_cong [OF eq, of "\<lambda>h. uint (drop_bit 16 h)"] arg_cong [OF eq, of "\<lambda>h. uint (take_bit 16 h)"]
  show "x mod 65536 = x' mod 65536 \<and> z mod 65536 = z' mod 65536"
    by (simp add: hash_low hash_high take16_word_of_int)
next
  assume a: "x mod 65536 = x' mod 65536 \<and> z mod 65536 = z' mod 65536"
  have "take_bit 16 (word_of_int x :: 32 word) = take_bit 16 (word_of_int x')"
    using a by (intro word_uint_eqI) (simp add: take16_word_of_int)
  moreover have "take_bit 16 (word_of_int z :: 32 word) = take_bit 16 (word_of_int z')"
    using a by (intro word_uint_eqI) (simp add: take16_word_of_int)
  ultimately show "hash (x, z) = hash (x', z')" by (simp add: hash_alt)
qed

lemma hash_inj:
  assumes "0 \<le> fst c" "fst c < 65536" "0 \<le> snd c" "snd c < 65536"
    and "0 \<le> fst c'" "fst c' < 65536" "0 \<le> snd c'" "snd c' < 65536"
  shows "hash c = hash c' \<longleftrightarrow> c = c'"
  using assms hash_eq_iff [of "fst c" "snd c" "fst c'" "snd c'"] by (auto simp: prod_eq_iff)

section \<open>The earlier variant of the walk (class Maze, src/unnamed/part_001)\<close>

text \<open>
  The class \<^verbatim>\<open>Maze\<close> of the earlier variant has the fields of \<^verbatim>\<open>WilsonMaze\<close> and the same
  \<^verbatim>\<open>linearize\<close> and \<^verbatim>\<open>getCellType\<close>; its state is the same record. Its path is keyed by
  the string \<^verbatim>\<open>`${vec.x},${vec.z}`\<close>, the decimal numerals of the two coordinates.
\<close>

fun offset :: "Vector2 \<Rightarrow> Direction \<Rightarrow> int \<Rightarrow> Vector2" where
  "offset (x, z) Up scale = (x, z - scale)"
| "offset (x, z) Down scale = (x, z + scale)"
| "offset (x, z) Left scale = (x - scale, z)"
| "offset (x, z) Right scale = (x + scale, z)"

fun showNat :: "nat \<Rightarrow> string" where
  "showNat n = (if n < 10 then [char_of (48 + n)] else showNat (n div 10) @ [char_of (48 + n mod 10)])"

declare showNat.simps [simp del]

definition showInt :: "int \<Rightarrow> string" where
  "showInt i = (if i < 0 then CHR ''-'' # showNat (nat (- i)) else showNat (nat i))"

definition keyOf :: "Vector2 \<Rightarrow> string" where
  "keyOf vec = showInt (fst vec) @ '','' @ showInt (snd vec)"

type_synonym strpath = "string \<rightharpoonup> Direction"

datatype jsError = ThrownError

text \<open>\<^verbatim>\<open>Maze.randomDir\<close>: a switch over the index, whose default case throws.\<close>

definition Maze_randomDir :: "draw \<Rightarrow> jsError + Direction" where
  "Maze_randomDir r =
     (let index = floor64 (mul64 r 4)
      in if index = 0 then Inr Up else if index = 1 then Inr Down
         else if index = 2 then Inr Left else if index = 3 then Inr Right
         else Inl ThrownError)"

fun Maze_randomWalk_loop ::
  "WilsonMaze \<Rightarrow> strpath \<Rightarrow> Vector2 \<Rightarrow> draw list \<Rightarrow> (jsError + strpath \<times> draw list) option" where
  "Maze_randomWalk_loop m pth cur [] =
     (if getCellType m (fst cur) (snd cur) = Some Solid then None else Some (Inr (pth, [])))"
| "Maze_randomWalk_loop m pth cur (r # rs) =
     (if getCellType m (fst cur) (snd cur) = Some Solid then
        (case Maze_randomDir r of
           Inl e \<Rightarrow> Some (Inl e)
         | Inr dir \<Rightarrow>
            (let nextPos = offset cur dir 2
             in if fst nextPos < 0 \<or> snd nextPos < 0 \<or> fst nextPos > width m - 1 \<or> snd nextPos > height m - 1
                then Maze_randomWalk_loop m pth cur rs
                else if getCellType m (fst nextPos) (snd nextPos) = Some Solid
                     then Maze_randomWalk_loop m (pth(keyOf cur \<mapsto> dir)) nextPos rs
                     else Some (Inr (pth(keyOf cur \<mapsto> dir), rs))))
      else Some (Inr (pth, r # rs)))"

definition Maze_randomWalk ::
  "WilsonMaze \<Rightarrow> Vector2 \<Rightarrow> draw list \<Rightarrow> (jsError + strpath \<times> draw list) option" where
  "Maze_randomWalk m start rs = Maze_randomWalk_loop m Map.empty start rs"

text \<open>
  Two recorded paths hold the same coordinate-to-direction map \<open>q\<close>, over coordinates in
  \<open>[0, 2^16)\<close>: each has exactly the keys of the coordinates of \<open>q\<close>, with the direction
  \<open>q\<close> gives.
\<close>

definition same_record :: "path \<Rightarrow> strpath \<Rightarrow> bool" where
  "same_record p1 p2 \<longleftrightarrow>
     (\<exists>q :: Vector2 \<rightharpoonup> Direction.
        dom p1 = hash ` dom q \<and> dom p2 = keyOf ` dom q \<and>
        (\<forall>c \<in> dom q. 0 \<le> fst c \<and> fst c < 65536 \<and> 0 \<le> snd c \<and> snd c < 65536 \<and>
                     p1 (hash c) = q c \<and> p2 (keyOf c) = q c))"

text \<open>
  The cell a walk from \<open>cur\<close> stands on after the draws \<open>rs\<close>, each step of 2 taken unless it
  leaves the grid (the test of both loops); and the step on which both loops break: from
  a \<open>Solid\<close> cell, inside the grid, onto a cell that is not \<open>Solid\<close>.
\<close>

fun walkPos :: "WilsonMaze \<Rightarrow> Vector2 \<Rightarrow> draw list \<Rightarrow> Vector2" where
  "walkPos m cur [] = cur"
| "walkPos m cur (r # rs) =
     (let nextPos = stepIn cur (randomDir r) 2
      in if fst nextPos < 0 \<or> snd nextPos < 0 \<or> fst nextPos > width m - 1 \<or> snd nextPos > height m - 1
         then walkPos m cur rs
         else walkPos m nextPos rs)"

definition finalStep :: "WilsonMaze \<Rightarrow> Vector2 \<Rightarrow> Direction \<Rightarrow> bool" where
  "finalStep m c d \<longleftrightarrow>
     getCellType m (fst c) (snd c) = Some Solid \<and>
     (let nextPos = stepIn c d 2
      in \<not> (fst nextPos < 0 \<or> snd nextPos < 0 \<or> fst nextPos > width m - 1 \<or> snd nextPos > height m - 1) \<and>
         getCellType m (fst nextPos) (snd nextPos) \<noteq> Some Solid)"

subsection \<open>Keys\<close>

definition readNat :: "string \<Rightarrow> nat" where
  "readNat s = foldl (\<lambda>a c. 10 * a + (of_char c - 48)) 0 s"

lemma readNat_snoc: "readNat (s @ [c]) = 10 * readNat s + (of_char c - 48)"
  by (simp add: readNat_def)

lemma readNat_showNat: "readNat (showNat n) = n"
proof (induction n rule: showNat.induct)
  case (1 n)
  show ?case
  proof (cases "n < 10")
    case True
    then show ?thesis by (subst showNat.simps) (simp add: readNat_def)
  next
    case False
    have "48 + n mod 10 < 256" by simp
    then have "(48 + n mod 10) mod 256 = 48 + n mod 10" by simp
    with False "1.IH" show ?thesis
      by (subst showNat.simps) (simp add: readNat_snoc)
  qed
qed

lemma showNat_chars: "c \<in> set (showNat n) \<Longrightarrow> c \<noteq> CHR '','' \<and> c \<noteq> CHR ''-''"
proof (induction n rule: showNat.induct)
  case (1 n)
  have d: "char_of (48 + k) \<noteq> CHR '',''" "char_of (48 + k) \<noteq> CHR ''-''" if "k < 10" for k :: nat
  proof -
    have k: "(of_char (char_of (48 + k)) :: nat) = 48 + k" using that by simp
    show "char_of (48 + k) \<noteq> CHR '',''"
    proof
      assume "char_of (48 + k) = CHR '',''"
      then have "(of_char (char_of (48 + k)) :: nat) = of_char (CHR '','')" by (rule arg_cong)
      then have "48 + k = 44" unfolding k by simp
      then show False by simp
    qed
    show "char_of (48 + k) \<noteq> CHR ''-''"
    proof
      assume "char_of (48 + k) = CHR ''-''"
      then have "(of_char (char_of (48 + k)) :: nat) = of_char (CHR ''-'')" by (rule arg_cong)
      then have "48 + k = 45" unfolding k by simp
      then show False by simp
    qed
  qed
  show ?case
  proof (cases "n < 10")
    case True
    with "1.prems" d [of n] show ?thesis by (subst (asm) showNat.simps) simp
  next
    case False
    have "n mod 10 < 10" by simp
    from "1.prems" False have "c \<in> set (showNat (n div 10)) \<or> c = char_of (48 + n mod 10)"
      by (subst (asm) showNat.simps) auto
    with "1.IH" [OF False] d [OF \<open>n mod 10 < 10\<close>] show ?thesis by auto
  qed
qed

lemma showNat_nonempty: "showNat n \<noteq> []"
  by (subst showNat.simps) simp

lemma showNat_inj: "showNat a = showNat b \<Longrightarrow> a = b"
  by (metis readNat_showNat)

lemma showInt_inj: "showInt a = showInt b \<Longrightarrow> a = b"
proof -
  assume eq: "showInt a = showInt b"
  have hd_nat: "hd (showNat n) \<noteq> CHR ''-''" for n
    using showNat_chars [of "hd (showNat n)" n] showNat_nonempty [of n] by simp
  show "a = b"
  proof (cases "a < 0"; cases "b < 0")
    assume "a < 0" "b < 0"
    with eq have "nat (- a) = nat (- b)" by (simp add: showInt_def showNat_inj)
    with \<open>a < 0\<close> \<open>b < 0\<close> show ?thesis by simp
  next
    assume "a < 0" "\<not> b < 0"
    with eq have "CHR ''-'' # showNat (nat (- a)) = showNat (nat b)"
      by (simp add: showInt_def)
    then have "hd (showNat (nat b)) = CHR ''-''" by (metis list.sel(1))
    with hd_nat show ?thesis by simp
  next
    assume "\<not> a < 0" "b < 0"
    with eq have "showNat (nat a) = CHR ''-'' # showNat (nat (- b))"
      by (simp add: showInt_def)
    then have "hd (showNat (nat a)) = CHR ''-''" by (metis list.sel(1))
    with hd_nat show ?thesis by simp
  next
    assume "\<not> a < 0" "\<not> b < 0"
    with eq have "nat a = nat b" by (simp add: showInt_def showNat_inj)
    with \<open>\<not> a < 0\<close> \<open>\<not> b < 0\<close> show ?thesis by simp
  qed
qed

lemma showInt_no_comma: "CHR '','' \<notin> set (showInt a)"
  using showNat_chars [of "CHR '',''"] by (auto simp: showInt_def)

lemma keyOf_inj: "keyOf c = keyOf c' \<Longrightarrow> c = c'"
proof -
  assume eq: "keyOf c = keyOf c'"
  have nc: "\<forall>ch\<in>set (showInt (fst v)). ch \<noteq> CHR '',''" for v
    using showInt_no_comma [of "fst v"] by auto
  have tw: "takeWhile (\<lambda>ch. ch \<noteq> CHR '','') (keyOf v) = showInt (fst v)" for v
    using nc [of v] by (simp add: keyOf_def)
  have dw: "dropWhile (\<lambda>ch. ch \<noteq> CHR '','') (keyOf v) = CHR '','' # showInt (snd v)" for v
    using nc [of v] by (simp add: keyOf_def)
  from eq tw [of c] tw [of c'] have "showInt (fst c) = showInt (fst c')" by simp
  moreover from eq dw [of c] dw [of c'] have "showInt (snd c) = showInt (snd c')" by simp
  ultimately show "c = c'" by (simp add: showInt_inj prod_eq_iff)
qed

lemma offset_stepIn: "offset c d k = stepIn c d k"
  by (cases c; cases d) simp_all

lemma Maze_randomDir_eq:
  assumes "isDraw r"
  shows "Maze_randomDir r = Inr (randomDir r)"
proof -
  have "0 \<le> floor64 (mul64 r 4)" "floor64 (mul64 r 4) < 4"
    by (rule floor64_mul64_range [OF assms], simp)+
  then have "floor64 (mul64 r 4) = 0 \<or> floor64 (mul64 r 4) = 1 \<or> floor64 (mul64 r 4) = 2 \<or>
      floor64 (mul64 r 4) = 3"
    by linarith
  then show ?thesis
    unfolding Maze_randomDir_def randomDir_def Let_def by presburger
qed

definition recorded :: "(Vector2 \<rightharpoonup> Direction) \<Rightarrow> path \<Rightarrow> strpath \<Rightarrow> bool" where
  "recorded q p1 p2 \<longleftrightarrow>
     dom p1 = hash ` dom q \<and> dom p2 = keyOf ` dom q \<and>
     (\<forall>c \<in> dom q. 0 \<le> fst c \<and> fst c < 65536 \<and> 0 \<le> snd c \<and> snd c < 65536 \<and>
                  p1 (hash c) = q c \<and> p2 (keyOf c) = q c)"

lemma recorded_same: "recorded q p1 p2 \<Longrightarrow> same_record p1 p2"
  unfolding recorded_def same_record_def by (rule exI [of _ q])

lemma recorded_upd:
  assumes "recorded q p1 p2" "0 \<le> fst c" "fst c < 65536" "0 \<le> snd c" "snd c < 65536"
  shows "recorded (q(c \<mapsto> d)) (p1(hash c \<mapsto> d)) (p2(keyOf c \<mapsto> d))"
proof -
  have rng: "0 \<le> fst c' \<and> fst c' < 65536 \<and> 0 \<le> snd c' \<and> snd c' < 65536" if "c' \<in> dom q" for c'
    using that assms(1) by (simp add: recorded_def)
  have inj1: "hash c' \<noteq> hash c" if "c' \<in> dom q" "c' \<noteq> c" for c'
    using that(2) rng [OF that(1)] assms(2-5) hash_inj [of c' c] by simp
  have inj2: "keyOf c' \<noteq> keyOf c" if "c' \<noteq> c" for c'
    using that keyOf_inj by blast
  show ?thesis
    unfolding recorded_def
  proof (intro conjI ballI)
    show "dom (p1(hash c \<mapsto> d)) = hash ` dom (q(c \<mapsto> d))"
      using assms(1) by (simp add: recorded_def)
    show "dom (p2(keyOf c \<mapsto> d)) = keyOf ` dom (q(c \<mapsto> d))"
      using assms(1) by (simp add: recorded_def)
  next
    fix c' assume c': "c' \<in> dom (q(c \<mapsto> d))"
    have r: "0 \<le> fst c' \<and> fst c' < 65536 \<and> 0 \<le> snd c' \<and> snd c' < 65536"
    proof (cases "c' = c")
      case True with assms(2-5) show ?thesis by simp
    next
      case False with c' have "c' \<in> dom q" by auto
      then show ?thesis by (rule rng)
    qed
    then show "0 \<le> fst c'" "fst c' < 65536" "0 \<le> snd c'" "snd c' < 65536" by simp_all
    show "(p1(hash c \<mapsto> d)) (hash c') = (q(c \<mapsto> d)) c'"
    proof (cases "c' = c")
      case True then show ?thesis by simp
    next
      case False
      with c' have "c' \<in> dom q" by auto
      with False inj1 [of c'] have "hash c' \<noteq> hash c" by simp
      moreover from \<open>c' \<in> dom q\<close> assms(1) have "p1 (hash c') = q c'" by (simp add: recorded_def)
      ultimately show ?thesis using False by simp
    qed
    show "(p2(keyOf c \<mapsto> d)) (keyOf c') = (q(c \<mapsto> d)) c'"
    proof (cases "c' = c")
      case True then show ?thesis by simp
    next
      case False
      with c' have "c' \<in> dom q" by auto
      moreover from False inj2 [of c'] have "keyOf c' \<noteq> keyOf c" by simp
      moreover from \<open>c' \<in> dom q\<close> assms(1) have "p2 (keyOf c') = q c'" by (simp add: recorded_def)
      ultimately show ?thesis using False by simp
    qed
  qed
qed

lemma walks_agree_loop:
  assumes "width m \<le> 65536" "height m \<le> 65536"
  shows "draws_ok rs \<Longrightarrow> recorded q p1 p2 \<Longrightarrow>
     0 \<le> fst cur \<Longrightarrow> fst cur < 65536 \<Longrightarrow> 0 \<le> snd cur \<Longrightarrow> snd cur < 65536 \<Longrightarrow>
     (case randomWalk_loop m p1 cur rs of
        None \<Rightarrow> Maze_randomWalk_loop m p2 cur rs = None
      | Some (p1', rs1) \<Rightarrow>
          (\<exists>p2'. Maze_randomWalk_loop m p2 cur rs = Some (Inr (p2', rs1)) \<and> same_record p1' p2'))"
proof (induction rs arbitrary: q p1 p2 cur)
  case Nil
  then show ?case by (simp add: recorded_same)
next
  case (Cons r rs)
  have r: "isDraw r" and rs: "draws_ok rs"
    using Cons.prems(1) by (simp_all add: draws_ok_def)
  note dir = Maze_randomDir_eq [OF r]
  show ?case
  proof (cases "getCellType m (fst cur) (snd cur) = Some Solid")
    case False
    with Cons.prems(2) show ?thesis by (simp add: recorded_same)
  next
    case solid: True
    let ?d = "randomDir r"
    let ?n = "stepIn cur ?d 2"
    show ?thesis
    proof (cases "fst ?n < 0 \<or> snd ?n < 0 \<or> fst ?n > width m - 1 \<or> snd ?n > height m - 1")
      case True
      with solid have e1: "randomWalk_loop m p1 cur (r # rs) = randomWalk_loop m p1 cur rs"
        by (simp add: Let_def)
      from True solid have e2: "Maze_randomWalk_loop m p2 cur (r # rs) = Maze_randomWalk_loop m p2 cur rs"
        by (simp add: dir offset_stepIn Let_def)
      show ?thesis unfolding e1 e2 by (rule Cons.IH [OF rs Cons.prems(2-6)])
    next
      case inb: False
      have rec: "recorded (q(cur \<mapsto> ?d)) (p1(hash cur \<mapsto> ?d)) (p2(keyOf cur \<mapsto> ?d))"
        using Cons.prems by (intro recorded_upd)
      show ?thesis
      proof (cases "getCellType m (fst ?n) (snd ?n) = Some Solid")
        case False
        with solid inb recorded_same [OF rec] show ?thesis
          by (simp add: dir offset_stepIn Let_def)
      next
        case True
        have nr: "0 \<le> fst ?n" "fst ?n < 65536" "0 \<le> snd ?n" "snd ?n < 65536"
          using inb assms by (simp_all add: not_less not_le)
        from solid inb True
        have e1: "randomWalk_loop m p1 cur (r # rs) = randomWalk_loop m (p1(hash cur \<mapsto> ?d)) ?n rs"
          by (simp add: Let_def)
        from solid inb True
        have e2: "Maze_randomWalk_loop m p2 cur (r # rs) = Maze_randomWalk_loop m (p2(keyOf cur \<mapsto> ?d)) ?n rs"
          by (simp add: dir offset_stepIn Let_def)
        show ?thesis unfolding e1 e2 by (rule Cons.IH [OF rs rec nr])
      qed
    qed
  qed
qed

lemma walkPos_range:
  assumes "width m \<le> 65536" "height m \<le> 65536"
  shows "0 \<le> fst cur \<Longrightarrow> fst cur < 65536 \<Longrightarrow> 0 \<le> snd cur \<Longrightarrow> snd cur < 65536 \<Longrightarrow>
    0 \<le> fst (walkPos m cur pre) \<and> fst (walkPos m cur pre) < 65536 \<and>
    0 \<le> snd (walkPos m cur pre) \<and> snd (walkPos m cur pre) < 65536"
proof (induction pre arbitrary: cur)
  case Nil
  then show ?case by simp
next
  case (Cons r pre)
  let ?n = "stepIn cur (randomDir r) 2"
  show ?case
  proof (cases "fst ?n < 0 \<or> snd ?n < 0 \<or> fst ?n > width m - 1 \<or> snd ?n > height m - 1")
    case True
    then have "walkPos m cur (r # pre) = walkPos m cur pre" by (simp add: Let_def)
    with Cons.IH [OF Cons.prems] show ?thesis by simp
  next
    case False
    then have e: "walkPos m cur (r # pre) = walkPos m ?n pre" by (simp add: Let_def)
    have nr: "0 \<le> fst ?n" "fst ?n < 65536" "0 \<le> snd ?n" "snd ?n < 65536"
      using False assms by (simp_all add: not_less not_le)
    from Cons.IH [OF nr] show ?thesis unfolding e .
  qed
qed

lemma randomWalk_loop_final:
  "randomWalk_loop m p cur rs = Some (p', rs') \<Longrightarrow>
   getCellType m (fst cur) (snd cur) = Some Solid \<Longrightarrow>
   \<exists>pre r. rs = pre @ r # rs' \<and> finalStep m (walkPos m cur pre) (randomDir r) \<and>
           p' (hash (walkPos m cur pre)) = Some (randomDir r)"
proof (induction rs arbitrary: p cur)
  case Nil
  then show ?case by simp
next
  case (Cons r rs)
  note solid = Cons.prems(2)
  let ?d = "randomDir r"
  let ?n = "stepIn cur ?d 2"
  show ?case
  proof (cases "fst ?n < 0 \<or> snd ?n < 0 \<or> fst ?n > width m - 1 \<or> snd ?n > height m - 1")
    case True
    with solid Cons.prems(1) have "randomWalk_loop m p cur rs = Some (p', rs')"
      by (simp add: Let_def)
    from Cons.IH [OF this solid] obtain pre r' where
      P: "rs = pre @ r' # rs'" "finalStep m (walkPos m cur pre) (randomDir r')"
        "p' (hash (walkPos m cur pre)) = Some (randomDir r')"
      by blast
    have w: "walkPos m cur (r # pre) = walkPos m cur pre" using True by (simp add: Let_def)
    have "r # rs = (r # pre) @ r' # rs'" using P(1) by simp
    moreover have "finalStep m (walkPos m cur (r # pre)) (randomDir r')" unfolding w by (rule P(2))
    moreover have "p' (hash (walkPos m cur (r # pre))) = Some (randomDir r')" unfolding w by (rule P(3))
    ultimately show ?thesis by blast
  next
    case inb: False
    show ?thesis
    proof (cases "getCellType m (fst ?n) (snd ?n) = Some Solid")
      case False
      with solid inb Cons.prems(1) have e: "p' = p(hash cur \<mapsto> ?d)" "rs' = rs"
        by (simp_all add: Let_def)
      have "r # rs = [] @ r # rs'" using e by simp
      moreover have "finalStep m (walkPos m cur []) ?d"
        using solid inb False by (simp add: finalStep_def Let_def)
      moreover have "p' (hash (walkPos m cur [])) = Some ?d" using e by simp
      ultimately show ?thesis by blast
    next
      case True
      with solid inb Cons.prems(1)
      have "randomWalk_loop m (p(hash cur \<mapsto> ?d)) ?n rs = Some (p', rs')"
        by (simp add: Let_def)
      from Cons.IH [OF this True] obtain pre r' where
        P: "rs = pre @ r' # rs'" "finalStep m (walkPos m ?n pre) (randomDir r')"
          "p' (hash (walkPos m ?n pre)) = Some (randomDir r')"
        by blast
      have w: "walkPos m cur (r # pre) = walkPos m ?n pre" using inb by (simp add: Let_def)
      have "r # rs = (r # pre) @ r' # rs'" using P(1) by simp
      moreover have "finalStep m (walkPos m cur (r # pre)) (randomDir r')" unfolding w by (rule P(2))
      moreover have "p' (hash (walkPos m cur (r # pre))) = Some (randomDir r')" unfolding w by (rule P(3))
      ultimately show ?thesis by blast
    qed
  qed
qed

lemma same_record_transfer:
  assumes "same_record p1 p2" "p1 (hash c) = Some d"
    and "0 \<le> fst c" "fst c < 65536" "0 \<le> snd c" "snd c < 65536"
  shows "p2 (keyOf c) = Some d"
proof -
  from assms(1) have "\<exists>q. recorded q p1 p2" by (simp add: same_record_def recorded_def)
  then obtain q where "recorded q p1 p2" ..
  then have q: "dom p1 = hash ` dom q"
      "\<forall>c \<in> dom q. 0 \<le> fst c \<and> fst c < 65536 \<and> 0 \<le> snd c \<and> snd c < 65536 \<and>
                     p1 (hash c) = q c \<and> p2 (keyOf c) = q c"
    by (simp_all add: recorded_def)
  from assms(2) have "hash c \<in> dom p1" by blast
  with q(1) obtain c' where c': "c' \<in> dom q" "hash c = hash c'" by blast
  from q(2) c'(1) have r: "0 \<le> fst c'" "fst c' < 65536" "0 \<le> snd c'" "snd c' < 65536"
    and v: "p1 (hash c') = q c'" "p2 (keyOf c') = q c'"
    by simp_all
  from hash_inj [OF assms(3-6) r] c'(2) have "c = c'" by simp
  with v assms(2) show ?thesis by simp
qed

lemma walk_3_5_eval:
  "randomWalk \<lparr>width = 3, height = 5, cells = fmupd 4 Empty (initCells 3 5),
                startIndex = 4, goalIndex = 10\<rparr> (1, 3) [(0, 0)] =
     Some ([hash (1, 3) \<mapsto> Up], [])"
  "Maze_randomWalk \<lparr>width = 3, height = 5, cells = fmupd 4 Empty (initCells 3 5),
                     startIndex = 4, goalIndex = 10\<rparr> (1, 3) [(0, 0)] =
     Some (Inr ([keyOf (1, 3) \<mapsto> Up], []))"
  by (simp_all add: randomWalk_def Maze_randomWalk_def getCellType_def linearize_def
      initCells_lookup randomDir_def Maze_randomDir_def draw_eval)

text \<open>
  Claim C8 says that the walk of \<^verbatim>\<open>WilsonMaze\<close> and the walk of the earlier \<^verbatim>\<open>Maze\<close> record
  different paths when the walk ends by stepping onto a carved cell. In the fresh 3 by 5
  maze, the walk from \<open>(1, 3)\<close> with the draw for \<^verbatim>\<open>Up\<close> steps onto the carved start
  cell at once, and both variants record the one entry \<open>(1, 3) \<mapsto> Up\<close>.
\<close>

theorem walks_record_last_step:
  "randomWalk \<lparr>width = 3, height = 5, cells = fmupd 4 Empty (initCells 3 5),
                startIndex = 4, goalIndex = 10\<rparr> (1, 3) [(0, 0)] =
     Some ([hash (1, 3) \<mapsto> Up], []) \<and>
   Maze_randomWalk \<lparr>width = 3, height = 5, cells = fmupd 4 Empty (initCells 3 5),
                     startIndex = 4, goalIndex = 10\<rparr> (1, 3) [(0, 0)] =
     Some (Inr ([keyOf (1, 3) \<mapsto> Up], []))"
  by (simp only: walk_3_5_eval)

text \<open>
  Claim C8 as amended: on the same maze of width and height at most \<open>2^16\<close>, from the same
  start cell with coordinates in \<open>[0, 2^16)\<close> and with the same draws, the two walks end
  together, leave the same draws, and record the same coordinate-to-direction map. Both record the final direction:
  when the start cell is \<open>Solid\<close>, the walk ends by its last draw \<open>r\<close>, taken on the cell
  \<open>walkPos m start pre\<close> it has reached by the draws \<open>pre\<close> before, a step from that \<open>Solid\<close> cell
  onto a cell of the grid that is not \<open>Solid\<close>; and both maps hold the direction of \<open>r\<close> at
  that cell.
\<close>

theorem walks_record_same_path:
  assumes "width m \<le> 65536" "height m \<le> 65536" "draws_ok rs"
    and "0 \<le> fst start" "fst start < 65536" "0 \<le> snd start" "snd start < 65536"
  shows "case randomWalk m start rs of
           None \<Rightarrow> Maze_randomWalk m start rs = None
         | Some (p1, rs1) \<Rightarrow>
             (\<exists>p2. Maze_randomWalk m start rs = Some (Inr (p2, rs1)) \<and> same_record p1 p2 \<and>
                (getCellType m (fst start) (snd start) = Some Solid \<longrightarrow>
                   (\<exists>pre r. rs = pre @ r # rs1 \<and>
                      finalStep m (walkPos m start pre) (randomDir r) \<and>
                      p1 (hash (walkPos m start pre)) = Some (randomDir r) \<and>
                      p2 (keyOf (walkPos m start pre)) = Some (randomDir r))))"
proof (cases "randomWalk m start rs")
  case None
  have "recorded Map.empty Map.empty Map.empty" by (simp add: recorded_def)
  from walks_agree_loop [OF assms(1,2,3) this assms(4-7)] None
  show ?thesis by (simp add: randomWalk_def Maze_randomWalk_def)
next
  case (Some a)
  obtain p1 rs1 where a: "a = (p1, rs1)" by (cases a)
  have "recorded Map.empty Map.empty Map.empty" by (simp add: recorded_def)
  from walks_agree_loop [OF assms(1,2,3) this assms(4-7)] Some a
  obtain p2 where p2: "Maze_randomWalk m start rs = Some (Inr (p2, rs1))" "same_record p1 p2"
    by (auto simp: randomWalk_def Maze_randomWalk_def)
  have fin: "\<exists>pre r. rs = pre @ r # rs1 \<and>
                      finalStep m (walkPos m start pre) (randomDir r) \<and>
                      p1 (hash (walkPos m start pre)) = Some (randomDir r) \<and>
                      p2 (keyOf (walkPos m start pre)) = Some (randomDir r)"
    if solid: "getCellType m (fst start) (snd start) = Some Solid"
  proof -
    from Some a have "randomWalk_loop m Map.empty start rs = Some (p1, rs1)"
      by (simp add: randomWalk_def)
    from randomWalk_loop_final [OF this solid] obtain pre r where
      P: "rs = pre @ r # rs1" "finalStep m (walkPos m start pre) (randomDir r)"
        "p1 (hash (walkPos m start pre)) = Some (randomDir r)"
      by blast
    from walkPos_range [OF assms(1,2,4-7), of pre]
    have rng: "0 \<le> fst (walkPos m start pre)" "fst (walkPos m start pre) < 65536"
      "0 \<le> snd (walkPos m start pre)" "snd (walkPos m start pre) < 65536"
      by simp_all
    have "p2 (keyOf (walkPos m start pre)) = Some (randomDir r)"
      by (rule same_record_transfer [OF p2(2) P(3) rng])
    with P show ?thesis by blast
  qed
  show ?thesis unfolding Some a using p2 fin by simp
qed

theorem walks_record_same_path_witness:
  "draws_ok [(0, 0)] \<and>
   getCellType \<lparr>width = 3, height = 5, cells = fmupd 4 Empty (initCells 3 5),
                 startIndex = 4, goalIndex = 10\<rparr> 1 3 = Some Solid \<and>
   (\<exists>p1 rs1 p2.
      randomWalk \<lparr>width = 3, height = 5, cells = fmupd 4 Empty (initCells 3 5),
                  startIndex = 4, goalIndex = 10\<rparr> (1, 3) [(0, 0)] = Some (p1, rs1) \<and>
      Maze_randomWalk \<lparr>width = 3, height = 5, cells = fmupd 4 Empty (initCells 3 5),
                       startIndex = 4, goalIndex = 10\<rparr> (1, 3) [(0, 0)] = Some (Inr (p2, rs1)) \<and>
      same_record p1 p2 \<and>
      (\<exists>pre r. [(0, 0)] = pre @ r # rs1 \<and>
         finalStep \<lparr>width = 3, height = 5, cells = fmupd 4 Empty (initCells 3 5),
                    startIndex = 4, goalIndex = 10\<rparr>
           (walkPos \<lparr>width = 3, height = 5, cells = fmupd 4 Empty (initCells 3 5),
                    startIndex = 4, goalIndex = 10\<rparr> (1, 3) pre) (randomDir r) \<and>
         p1 (hash (walkPos \<lparr>width = 3, height = 5, cells = fmupd 4 Empty (initCells 3 5),
                    startIndex = 4, goalIndex = 10\<rparr> (1, 3) pre)) = Some (randomDir r) \<and>
         p2 (keyOf (walkPos \<lparr>width = 3, height = 5, cells = fmupd 4 Empty (initCells 3 5),
                    startIndex = 4, goalIndex = 10\<rparr> (1, 3) pre)) = Some (randomDir r)))"
  using walks_record_same_path [of "\<lparr>width = 3, height = 5, cells = fmupd 4 Empty (initCells 3 5),
                  startIndex = 4, goalIndex = 10\<rparr>" "[(0, 0)]" "(1, 3)"]
  by (simp add: draws_ok_def isDraw_def walk_3_5_eval getCellType_def linearize_def
      initCells_lookup randomDir_def draw_eval)

section \<open>Carved regions as sets of coordinates\<close>

definition adjacent :: "Vector2 \<Rightarrow> Vector2 \<Rightarrow> bool" where
  "adjacent c c' \<longleftrightarrow> \<bar>fst c - fst c'\<bar> + \<bar>snd c - snd c'\<bar> = 1"

definition adjIn :: "Vector2 set \<Rightarrow> (Vector2 \<times> Vector2) set" where
  "adjIn E = {(c, c'). c \<in> E \<and> c' \<in> E \<and> adjacent c c'}"

definition pairsIn :: "Vector2 set \<Rightarrow> Vector2 set set" where
  "pairsIn E = {{c, c'} | c c'. c \<in> E \<and> c' \<in> E \<and> adjacent c c'}"

text \<open>
  The shape of every carved region: it lies strictly inside the boundary ring and has no
  cell with two even coordinates; a carved cell with an even coordinate has both its
  neighbours along that axis carved; the region contains \<open>(1, 1)\<close>, every cell of it is
  reached from \<open>(1, 1)\<close> through adjacent carved cells, and it has one cell more than it
  has adjacent pairs.
\<close>

definition treeInv :: "int \<Rightarrow> int \<Rightarrow> Vector2 set \<Rightarrow> bool" where
  "treeInv W H E \<longleftrightarrow>
     (\<forall>c\<in>E. 1 \<le> fst c \<and> fst c \<le> W - 2 \<and> 1 \<le> snd c \<and> snd c \<le> H - 2 \<and>
             (odd (fst c) \<or> odd (snd c))) \<and>
     (\<forall>c\<in>E. even (fst c) \<longrightarrow> (fst c - 1, snd c) \<in> E \<and> (fst c + 1, snd c) \<in> E) \<and>
     (\<forall>c\<in>E. even (snd c) \<longrightarrow> (fst c, snd c - 1) \<in> E \<and> (fst c, snd c + 1) \<in> E) \<and>
     (1, 1) \<in> E \<and>
     (\<forall>c\<in>E. ((1, 1), c) \<in> (adjIn E)\<^sup>*) \<and>
     card E = card (pairsIn E) + 1"

lemma treeInv_range:
  "treeInv W H E \<Longrightarrow> c \<in> E \<Longrightarrow>
     1 \<le> fst c \<and> fst c \<le> W - 2 \<and> 1 \<le> snd c \<and> snd c \<le> H - 2 \<and> (odd (fst c) \<or> odd (snd c))"
  by (simp add: treeInv_def)

lemma treeInv_closed_x:
  "treeInv W H E \<Longrightarrow> c \<in> E \<Longrightarrow> even (fst c) \<Longrightarrow> (fst c - 1, snd c) \<in> E \<and> (fst c + 1, snd c) \<in> E"
  by (simp add: treeInv_def)

lemma treeInv_closed_z:
  "treeInv W H E \<Longrightarrow> c \<in> E \<Longrightarrow> even (snd c) \<Longrightarrow> (fst c, snd c - 1) \<in> E \<and> (fst c, snd c + 1) \<in> E"
  by (simp add: treeInv_def)

lemma treeInv_finite:
  assumes "treeInv W H E"
  shows "finite E"
proof (rule finite_subset)
  show "E \<subseteq> {1..W - 2} \<times> {1..H - 2}"
    using treeInv_range [OF assms] by (auto simp: mem_Times_iff)
  show "finite ({1..W - 2} \<times> {1..H - 2})" by simp
qed

lemma pairsIn_finite: "finite E \<Longrightarrow> finite (pairsIn E)"
proof (rule finite_subset)
  show "pairsIn E \<subseteq> (\<lambda>(c, c'). {c, c'}) ` (E \<times> E)"
    by (auto simp: pairsIn_def image_iff)
qed simp

lemma adjIn_mono: "E \<subseteq> E' \<Longrightarrow> adjIn E \<subseteq> adjIn E'"
  by (auto simp: adjIn_def)

lemma reach_mono:
  assumes "E \<subseteq> E'" "(a, b) \<in> (adjIn E)\<^sup>*"
  shows "(a, b) \<in> (adjIn E')\<^sup>*"
  using rtrancl_mono [OF adjIn_mono [OF assms(1)]] assms(2) by blast

lemma adjacent_sym: "adjacent a b \<Longrightarrow> adjacent b a"
  by (simp add: adjacent_def abs_minus_commute)

subsection \<open>One step of a walk\<close>

lemma stepIn_cases:
  obtains (horizontal) k where "k = 1 \<or> k = - 1"
      "stepIn c d 1 = (fst c + k, snd c)" "stepIn c d 2 = (fst c + 2 * k, snd c)"
    | (vertical) k where "k = 1 \<or> k = - 1"
      "stepIn c d 1 = (fst c, snd c + k)" "stepIn c d 2 = (fst c, snd c + 2 * k)"
proof (cases c; cases d)
  fix x z assume "c = (x, z)" "d = Up"
  then show thesis using vertical [of "- 1"] by simp
next
  fix x z assume "c = (x, z)" "d = Down"
  then show thesis using vertical [of 1] by simp
next
  fix x z assume "c = (x, z)" "d = Left"
  then show thesis using horizontal [of "- 1"] by simp
next
  fix x z assume "c = (x, z)" "d = Right"
  then show thesis using horizontal [of 1] by simp
qed

lemma adjacent_iff:
  "adjacent a c \<longleftrightarrow>
     c = (fst a + 1, snd a) \<or> c = (fst a - 1, snd a) \<or> c = (fst a, snd a + 1) \<or> c = (fst a, snd a - 1)"
proof (cases a; cases c)
  fix x z x' z' assume "a = (x, z)" "c = (x', z')"
  then show ?thesis by (auto simp: adjacent_def)
qed

text \<open>
  Attaching a solid intersection \<open>s\<close> to a carved cell \<open>t\<close> two steps away, through the
  cell \<open>b\<close> between them.
\<close>

lemma treeInv_attach_core:
  assumes inv: "treeInv W H E"
    and s: "odd (fst s)" "odd (snd s)" "1 \<le> fst s" "fst s \<le> W - 2" "1 \<le> snd s" "snd s \<le> H - 2"
    and sE: "s \<notin> E" and tE: "t \<in> E"
    and adj: "adjacent s b" "adjacent b t"
    and brange: "1 \<le> fst b" "fst b \<le> W - 2" "1 \<le> snd b" "snd b \<le> H - 2"
    and bpar: "even (fst b) \<noteq> even (snd b)"
    and bx: "even (fst b) \<Longrightarrow> {(fst b - 1, snd b), (fst b + 1, snd b)} = {s, t}"
    and bz: "even (snd b) \<Longrightarrow> {(fst b, snd b - 1), (fst b, snd b + 1)} = {s, t}"
  shows "treeInv W H (insert s (insert b E))"
proof -
  let ?E = "insert s (insert b E)"
  have fin: "finite E" by (rule treeInv_finite [OF inv])
  have sub: "E \<subseteq> ?E" by auto
  have st: "s \<noteq> t" using sE tE by auto
  have sb: "s \<noteq> b" using s(1,2) bpar by auto
  have bE: "b \<notin> E"
  proof
    assume b: "b \<in> E"
    show False
    proof (cases "even (fst b)")
      case True
      have "s \<in> {(fst b - 1, snd b), (fst b + 1, snd b)}" unfolding bx [OF True] by simp
      with treeInv_closed_x [OF inv b True] have "s \<in> E" by blast
      with sE show False by simp
    next
      case False
      with bpar have ev: "even (snd b)" by simp
      have "s \<in> {(fst b, snd b - 1), (fst b, snd b + 1)}" unfolding bz [OF ev] by simp
      with treeInv_closed_z [OF inv b ev] have "s \<in> E" by blast
      with sE show False by simp
    qed
  qed
  have range: "1 \<le> fst c \<and> fst c \<le> W - 2 \<and> 1 \<le> snd c \<and> snd c \<le> H - 2 \<and> (odd (fst c) \<or> odd (snd c))"
    if "c \<in> ?E" for c
  proof -
    from that consider "c = s" | "c = b" | "c \<in> E" by auto
    then show ?thesis
    proof cases
      case 1 with s show ?thesis by simp
    next
      case 2 with brange bpar show ?thesis by auto
    next
      case 3 then show ?thesis by (rule treeInv_range [OF inv])
    qed
  qed
  have closed_x: "(fst c - 1, snd c) \<in> ?E \<and> (fst c + 1, snd c) \<in> ?E" if "c \<in> ?E" "even (fst c)" for c
  proof -
    from that s(1) consider "c = b" | "c \<in> E" by auto
    then show ?thesis
    proof cases
      case 1
      with that(2) bx have "{(fst c - 1, snd c), (fst c + 1, snd c)} = {s, t}" by simp
      then have "(fst c - 1, snd c) \<in> {s, t}" "(fst c + 1, snd c) \<in> {s, t}" by blast+
      with tE show ?thesis by auto
    next
      case 2
      from treeInv_closed_x [OF inv 2 that(2)] show ?thesis by simp
    qed
  qed
  have closed_z: "(fst c, snd c - 1) \<in> ?E \<and> (fst c, snd c + 1) \<in> ?E" if "c \<in> ?E" "even (snd c)" for c
  proof -
    from that s(2) consider "c = b" | "c \<in> E" by auto
    then show ?thesis
    proof cases
      case 1
      with that(2) bz have "{(fst c, snd c - 1), (fst c, snd c + 1)} = {s, t}" by simp
      then have "(fst c, snd c - 1) \<in> {s, t}" "(fst c, snd c + 1) \<in> {s, t}" by blast+
      with tE show ?thesis by auto
    next
      case 2
      from treeInv_closed_z [OF inv 2 that(2)] show ?thesis by simp
    qed
  qed
  have nb_b: "c = s \<or> c = t" if "adjacent b c" "c \<in> ?E" for c
  proof (cases "even (fst b)")
    case True
    with bpar have odd_z: "odd (snd b)" by simp
    from that(1) consider "c = (fst b + 1, snd b) \<or> c = (fst b - 1, snd b)"
      | "c = (fst b, snd b + 1) \<or> c = (fst b, snd b - 1)"
      unfolding adjacent_iff by blast
    then show ?thesis
    proof cases
      case 1
      with bx [OF True] have "c \<in> {s, t}" by blast
      then show ?thesis by simp
    next
      case 2
      with True odd_z have "even (fst c)" "even (snd c)" by auto
      with range [OF that(2)] show ?thesis by simp
    qed
  next
    case False
    with bpar have ev: "even (snd b)" by simp
    from that(1) consider "c = (fst b + 1, snd b) \<or> c = (fst b - 1, snd b)"
      | "c = (fst b, snd b + 1) \<or> c = (fst b, snd b - 1)"
      unfolding adjacent_iff by blast
    then show ?thesis
    proof cases
      case 2
      with bz [OF ev] have "c \<in> {s, t}" by blast
      then show ?thesis by simp
    next
      case 1
      with False ev have "even (fst c)" "even (snd c)" by auto
      with range [OF that(2)] show ?thesis by simp
    qed
  qed
  have nb_s: "c = b" if "adjacent s c" "c \<in> ?E" for c
  proof (rule ccontr)
    assume cb: "c \<noteq> b"
    from that(1) s(1,2) have par: "even (fst c) \<noteq> even (snd c)" and cs: "c \<noteq> s"
      unfolding adjacent_iff by (auto simp: prod_eq_iff)
    with that(2) cb have cE: "c \<in> E" by auto
    show False
    proof (cases "even (fst c)")
      case True
      from that(1) True s(1) have "s = (fst c - 1, snd c) \<or> s = (fst c + 1, snd c)"
        unfolding adjacent_iff by (auto simp: prod_eq_iff)
      with treeInv_closed_x [OF inv cE True] sE show False by auto
    next
      case False
      with par have ev: "even (snd c)" by simp
      from that(1) ev s(2) have "s = (fst c, snd c - 1) \<or> s = (fst c, snd c + 1)"
        unfolding adjacent_iff by (auto simp: prod_eq_iff)
      with treeInv_closed_z [OF inv cE ev] sE show False by auto
    qed
  qed
  have pairs: "pairsIn ?E = insert {s, b} (insert {b, t} (pairsIn E))"
  proof (intro equalityI subsetI)
    fix p assume "p \<in> pairsIn ?E"
    then obtain c c' where p: "p = {c, c'}" and c: "c \<in> ?E" "c' \<in> ?E" and a: "adjacent c c'"
      unfolding pairsIn_def by blast
    consider "c = s" | "c' = s" | "c = b" | "c' = b" | "c \<in> E \<and> c' \<in> E"
      using c by blast
    then show "p \<in> insert {s, b} (insert {b, t} (pairsIn E))"
    proof cases
      case 1
      with nb_s [OF _ c(2)] a have "c' = b" by simp
      with 1 p show ?thesis by simp
    next
      case 2
      with nb_s [OF _ c(1)] adjacent_sym [OF a] have "c = b" by simp
      with 2 p show ?thesis by (simp add: insert_commute)
    next
      case 3
      with nb_b [OF _ c(2)] a have "c' = s \<or> c' = t" by simp
      with 3 p show ?thesis by (auto simp: insert_commute)
    next
      case 4
      with nb_b [OF _ c(1)] adjacent_sym [OF a] have "c = s \<or> c = t" by simp
      with 4 p show ?thesis by (auto simp: insert_commute)
    next
      case 5
      with p a have "p \<in> pairsIn E" unfolding pairsIn_def by blast
      then show ?thesis by simp
    qed
  next
    fix p assume "p \<in> insert {s, b} (insert {b, t} (pairsIn E))"
    then consider "p = {s, b}" | "p = {b, t}" | "p \<in> pairsIn E" by blast
    then show "p \<in> pairsIn ?E"
    proof cases
      case 1 with adj(1) show ?thesis unfolding pairsIn_def by blast
    next
      case 2 with adj(2) tE show ?thesis unfolding pairsIn_def by blast
    next
      case 3 then show ?thesis unfolding pairsIn_def by blast
    qed
  qed
  have notin1: "{b, t} \<notin> pairsIn E"
  proof
    assume "{b, t} \<in> pairsIn E"
    then obtain c c' where "{b, t} = {c, c'}" "c \<in> E" "c' \<in> E" unfolding pairsIn_def by blast
    then have "b \<in> E" by (auto simp: doubleton_eq_iff)
    with bE show False by simp
  qed
  have notin2: "{s, b} \<notin> insert {b, t} (pairsIn E)"
  proof
    assume "{s, b} \<in> insert {b, t} (pairsIn E)"
    then consider "{s, b} = {b, t}" | "{s, b} \<in> pairsIn E" by blast
    then show False
    proof cases
      case 1 with st sb show False by (auto simp: doubleton_eq_iff)
    next
      case 2
      then obtain c c' where "{s, b} = {c, c'}" "c \<in> E" "c' \<in> E" unfolding pairsIn_def by blast
      then have "s \<in> E" by (auto simp: doubleton_eq_iff)
      with sE show False by simp
    qed
  qed
  have finp: "finite (pairsIn E)" by (rule pairsIn_finite [OF fin])
  have cardE: "card ?E = card E + 2"
    using fin sE bE sb by simp
  have cardP: "card (pairsIn ?E) = card (pairsIn E) + 2"
    unfolding pairs using finp notin1 notin2 by simp
  have reach_old: "((1, 1), c) \<in> (adjIn ?E)\<^sup>*" if "c \<in> E" for c
  proof (rule reach_mono [OF sub])
    from inv that show "((1, 1), c) \<in> (adjIn E)\<^sup>*" by (simp add: treeInv_def)
  qed
  have tb: "(t, b) \<in> adjIn ?E" using adj(2) tE by (simp add: adjIn_def adjacent_sym)
  have bs: "(b, s) \<in> adjIn ?E" using adj(1) by (simp add: adjIn_def adjacent_sym)
  have reach_b: "((1, 1), b) \<in> (adjIn ?E)\<^sup>*"
    using reach_old [OF tE] tb by (rule rtrancl_into_rtrancl)
  have reach_s: "((1, 1), s) \<in> (adjIn ?E)\<^sup>*"
    using reach_b bs by (rule rtrancl_into_rtrancl)
  have reach: "((1, 1), c) \<in> (adjIn ?E)\<^sup>*" if "c \<in> ?E" for c
    using that reach_old reach_b reach_s by blast
  have one: "(1, 1) \<in> ?E" using inv by (simp add: treeInv_def)
  have cardT: "card ?E = card (pairsIn ?E) + 1"
    using cardE cardP inv by (simp add: treeInv_def)
  show ?thesis
    unfolding treeInv_def
  proof (intro conjI ballI impI)
    fix c assume "c \<in> ?E"
    from range [OF this]
    show "1 \<le> fst c" "fst c \<le> W - 2" "1 \<le> snd c" "snd c \<le> H - 2" "odd (fst c) \<or> odd (snd c)"
      by simp_all
  next
    fix c assume "c \<in> ?E" "even (fst c)"
    from closed_x [OF this] show "(fst c - 1, snd c) \<in> ?E" "(fst c + 1, snd c) \<in> ?E" by simp_all
  next
    fix c assume "c \<in> ?E" "even (snd c)"
    from closed_z [OF this] show "(fst c, snd c - 1) \<in> ?E" "(fst c, snd c + 1) \<in> ?E" by simp_all
  next
    show "(1, 1) \<in> ?E" by (rule one)
  next
    fix c assume "c \<in> ?E" then show "((1, 1), c) \<in> (adjIn ?E)\<^sup>*" by (rule reach)
  next
    show "card ?E = card (pairsIn ?E) + 1" by (rule cardT)
  qed
qed

definition isNode :: "int \<Rightarrow> int \<Rightarrow> Vector2 \<Rightarrow> bool" where
  "isNode W H c \<longleftrightarrow> odd (fst c) \<and> odd (snd c) \<and> 1 \<le> fst c \<and> fst c \<le> W - 2 \<and> 1 \<le> snd c \<and> snd c \<le> H - 2"

lemma treeInv_attach:
  assumes inv: "treeInv W H E"
    and s: "isNode W H s" "s \<notin> E"
    and t: "stepIn s d 2 \<in> E"
  shows "treeInv W H (insert s (insert (stepIn s d 1) E))"
proof -
  note tr = treeInv_range [OF inv t]
  from s(1) have so: "odd (fst s)" "odd (snd s)" "1 \<le> fst s" "fst s \<le> W - 2" "1 \<le> snd s" "snd s \<le> H - 2"
    by (simp_all add: isNode_def)
  show ?thesis
  proof (cases rule: stepIn_cases [of s d])
    case (horizontal k)
    let ?b = "(fst s + k, snd s)" and ?t = "(fst s + 2 * k, snd s)"
    have tE: "?t \<in> E" using t horizontal by simp
    have tr': "1 \<le> fst s + 2 * k" "fst s + 2 * k \<le> W - 2" using tr horizontal by simp_all
    have "treeInv W H (insert s (insert ?b E))"
    proof (rule treeInv_attach_core [OF inv so s(2) tE])
      show "adjacent s ?b" "adjacent ?b ?t" using horizontal(1) by (auto simp: adjacent_def)
      show "1 \<le> fst ?b" "fst ?b \<le> W - 2" using so tr' horizontal(1) by auto
      show "1 \<le> snd ?b" "snd ?b \<le> H - 2" using so by simp_all
      show "even (fst ?b) \<noteq> even (snd ?b)" using so horizontal(1) by auto
      show "{(fst ?b - 1, snd ?b), (fst ?b + 1, snd ?b)} = {s, ?t}"
        using horizontal(1) by (auto simp: prod_eq_iff)
      show "{(fst ?b, snd ?b - 1), (fst ?b, snd ?b + 1)} = {s, ?t}" if "even (snd ?b)"
        using that so by simp
    qed
    with horizontal show ?thesis by simp
  next
    case (vertical k)
    let ?b = "(fst s, snd s + k)" and ?t = "(fst s, snd s + 2 * k)"
    have tE: "?t \<in> E" using t vertical by simp
    have tr': "1 \<le> snd s + 2 * k" "snd s + 2 * k \<le> H - 2" using tr vertical by simp_all
    have "treeInv W H (insert s (insert ?b E))"
    proof (rule treeInv_attach_core [OF inv so s(2) tE])
      show "adjacent s ?b" "adjacent ?b ?t" using vertical(1) by (auto simp: adjacent_def)
      show "1 \<le> snd ?b" "snd ?b \<le> H - 2" using so tr' vertical(1) by auto
      show "1 \<le> fst ?b" "fst ?b \<le> W - 2" using so by simp_all
      show "even (fst ?b) \<noteq> even (snd ?b)" using so vertical(1) by auto
      show "{(fst ?b, snd ?b - 1), (fst ?b, snd ?b + 1)} = {s, ?t}"
        using vertical(1) by (auto simp: prod_eq_iff)
      show "{(fst ?b - 1, snd ?b), (fst ?b + 1, snd ?b)} = {s, ?t}" if "even (fst ?b)"
        using that so by simp
    qed
    with vertical show ?thesis by simp
  qed
qed

subsection \<open>Chains of intersections\<close>

definition between :: "Vector2 \<Rightarrow> Vector2 \<Rightarrow> Vector2" where
  "between a b = ((fst a + fst b) div 2, (snd a + snd b) div 2)"

lemma between_stepIn: "between a (stepIn a d 2) = stepIn a d 1"
  by (cases a; cases d) (simp_all add: between_def)

lemma stepIn_parity:
  "odd (fst a) \<Longrightarrow> odd (snd a) \<Longrightarrow> odd (fst (stepIn a d 2)) \<and> odd (snd (stepIn a d 2)) \<and>
     \<not> (odd (fst (stepIn a d 1)) \<and> odd (snd (stepIn a d 1)))"
  by (cases a; cases d) simp_all

lemma stepIn_neq: "stepIn a d 2 \<noteq> a"
  by (cases a; cases d) simp_all

text \<open>The cells a replay of the chain carves: every cell but the last, and the cells between.\<close>

fun chainCells :: "Vector2 list \<Rightarrow> Vector2 set" where
  "chainCells (a # b # r) = insert a (insert (between a b) (chainCells (b # r)))"
| "chainCells _ = {}"

fun stepsOk :: "Vector2 list \<Rightarrow> bool" where
  "stepsOk (a # b # r) \<longleftrightarrow> (\<exists>d. stepIn a d 2 = b) \<and> stepsOk (b # r)"
| "stepsOk _ \<longleftrightarrow> True"

lemma chainCells_cases:
  "stepsOk ch \<Longrightarrow> (\<forall>c\<in>set ch. odd (fst c) \<and> odd (snd c)) \<Longrightarrow> c \<in> chainCells ch \<Longrightarrow>
     c \<in> set (butlast ch) \<or> \<not> (odd (fst c) \<and> odd (snd c))"
proof (induction ch rule: chainCells.induct)
  case (1 a b r)
  from "1.prems"(1) obtain d where d: "stepIn a d 2 = b" by auto
  have "\<not> (odd (fst (between a b)) \<and> odd (snd (between a b)))"
    using stepIn_parity [of a d] "1.prems"(2) between_stepIn [of a d] d by simp
  with 1 show ?case by auto
qed simp_all

lemma chainCells_nodes:
  "stepsOk ch \<Longrightarrow> (\<forall>c\<in>set ch. odd (fst c) \<and> odd (snd c)) \<Longrightarrow>
     {c \<in> chainCells ch. odd (fst c) \<and> odd (snd c)} = set (butlast ch)"
proof (induction ch rule: chainCells.induct)
  case (1 a b r)
  from "1.prems"(1) obtain d where d: "stepIn a d 2 = b" by auto
  have nb: "\<not> (odd (fst (between a b)) \<and> odd (snd (between a b)))"
    using stepIn_parity [of a d] "1.prems"(2) between_stepIn [of a d] d by simp
  have IH: "{c \<in> chainCells (b # r). odd (fst c) \<and> odd (snd c)} = set (butlast (b # r))"
    using 1 by simp
  have a: "odd (fst a) \<and> odd (snd a)" using "1.prems"(2) by simp
  have "{c \<in> chainCells (a # b # r). odd (fst c) \<and> odd (snd c)} =
        insert a {c \<in> chainCells (b # r). odd (fst c) \<and> odd (snd c)}"
    using nb a by auto
  with IH show ?case by simp
qed simp_all

lemma chain_attach:
  "treeInv W H E \<Longrightarrow> ch \<noteq> [] \<Longrightarrow> distinct ch \<Longrightarrow> stepsOk ch \<Longrightarrow>
   (\<forall>c\<in>set (butlast ch). isNode W H c \<and> c \<notin> E) \<Longrightarrow> last ch \<in> E \<Longrightarrow>
   odd (fst (last ch)) \<and> odd (snd (last ch)) \<Longrightarrow>
   treeInv W H (E \<union> chainCells ch)"
proof (induction ch rule: chainCells.induct)
  case (1 a b r)
  from "1.prems"(4) obtain d where d: "stepIn a d 2 = b" and st: "stepsOk (b # r)" by auto
  let ?E1 = "E \<union> chainCells (b # r)"
  have inv1: "treeInv W H ?E1"
  proof (rule "1.IH")
    show "treeInv W H E" by fact
    show "b # r \<noteq> []" by simp
    show "distinct (b # r)" using "1.prems"(3) by simp
    show "stepsOk (b # r)" by fact
    show "\<forall>c\<in>set (butlast (b # r)). isNode W H c \<and> c \<notin> E" using "1.prems"(5) by simp
    show "last (b # r) \<in> E" using "1.prems"(6) by simp
    show "odd (fst (last (b # r))) \<and> odd (snd (last (b # r)))" using "1.prems"(7) by simp
  qed
  have a: "isNode W H a" "a \<notin> E" using "1.prems"(5) by simp_all
  have odd_all: "\<forall>c\<in>set (b # r). odd (fst c) \<and> odd (snd c)"
  proof
    fix c assume c: "c \<in> set (b # r)"
    show "odd (fst c) \<and> odd (snd c)"
    proof (cases "c = last (b # r)")
      case True with "1.prems"(7) show ?thesis by simp
    next
      case False
      with c have "c \<in> set (butlast (b # r))"
        by (metis append_butlast_last_id list.distinct(1) rotate1.simps(2) set_ConsD set_rotate1)
      with "1.prems"(5) show ?thesis by (simp add: isNode_def)
    qed
  qed
  have "a \<notin> chainCells (b # r)"
  proof
    assume "a \<in> chainCells (b # r)"
    from chainCells_cases [OF st odd_all this] a(1) have "a \<in> set (butlast (b # r))"
      by (simp add: isNode_def)
    then have "a \<in> set (b # r)" by (rule in_set_butlastD)
    with "1.prems"(3) show False by simp
  qed
  with a have a1: "a \<notin> ?E1" by simp
  have b1: "stepIn a d 2 \<in> ?E1"
  proof (cases r)
    case Nil
    with "1.prems"(6) d show ?thesis by simp
  next
    case (Cons c r')
    then show ?thesis using d by simp
  qed
  from treeInv_attach [OF inv1 a(1) a1 b1]
  have "treeInv W H (insert a (insert (stepIn a d 1) ?E1))" .
  moreover have "E \<union> chainCells (a # b # r) = insert a (insert (stepIn a d 1) ?E1)"
    using between_stepIn [of a d] d by auto
  ultimately show ?case by simp
qed simp_all

section \<open>Mazes during generation\<close>

definition cellAt :: "WilsonMaze \<Rightarrow> Vector2 \<Rightarrow> CellType option" where
  "cellAt m c = getCellType m (fst c) (snd c)"

definition setEmpty :: "WilsonMaze \<Rightarrow> Vector2 \<Rightarrow> WilsonMaze" where
  "setEmpty m c = setCellType m (fst c) (snd c) Empty"

definition inGrid :: "WilsonMaze \<Rightarrow> Vector2 \<Rightarrow> bool" where
  "inGrid m c \<longleftrightarrow> 0 \<le> fst c \<and> fst c < width m \<and> 0 \<le> snd c \<and> snd c < height m"

definition isEmpty :: "WilsonMaze \<Rightarrow> Vector2 \<Rightarrow> bool" where
  "isEmpty m c \<longleftrightarrow> inGrid m c \<and> cellAt m c = Some Empty"

definition emptyCells :: "WilsonMaze \<Rightarrow> Vector2 set" where
  "emptyCells m = {c. isEmpty m c}"

definition inRange :: "WilsonMaze \<Rightarrow> int \<Rightarrow> bool" where
  "inRange m i \<longleftrightarrow> 0 \<le> i \<and> i < width m * height m"

text \<open>
  A maze under generation: odd dimensions from 3, and an array that holds an element
  exactly at the indices \<open>0 \<le> i < width * height\<close>. In a small grid, of dimensions up to
  \<open>2^16 + 1\<close>, the coordinates of all intersections are below \<open>2^16\<close>.
\<close>

definition smallGrid :: "WilsonMaze \<Rightarrow> bool" where
  "smallGrid m \<longleftrightarrow> width m \<le> 65537 \<and> height m \<le> 65537"

definition wellFormed :: "WilsonMaze \<Rightarrow> bool" where
  "wellFormed m \<longleftrightarrow>
     odd (width m) \<and> 3 \<le> width m \<and>
     odd (height m) \<and> 3 \<le> height m \<and>
     (\<forall>i. fmlookup (cells m) i \<noteq> None \<longleftrightarrow> inRange m i)"

abbreviation node :: "WilsonMaze \<Rightarrow> Vector2 \<Rightarrow> bool" where
  "node m c \<equiv> isNode (width m) (height m) c"

lemma setEmpty_fields [simp]:
  "width (setEmpty m c) = width m" "height (setEmpty m c) = height m"
  "startIndex (setEmpty m c) = startIndex m" "goalIndex (setEmpty m c) = goalIndex m"
  by (simp_all add: setEmpty_def)

lemma inGrid_setEmpty [simp]: "inGrid (setEmpty m c) c' = inGrid m c'"
  by (simp add: inGrid_def)

lemma inRange_setEmpty [simp]: "inRange (setEmpty m c) i = inRange m i"
  by (simp add: inRange_def)

lemma node_inGrid: "isNode (width m) (height m) c \<Longrightarrow> inGrid m c"
  by (simp add: isNode_def inGrid_def)

lemma linearize_inj:
  assumes "inGrid m c" "inGrid m c'"
  shows "linearize m (fst c) (snd c) = linearize m (fst c') (snd c') \<longleftrightarrow> c = c'"
proof
  assume eq: "linearize m (fst c) (snd c) = linearize m (fst c') (snd c')"
  have w: "0 < width m" using assms(1) by (simp add: inGrid_def)
  from eq have e: "snd c * width m + fst c = snd c' * width m + fst c'" by (simp add: linearize_def)
  from arg_cong [OF e, of "\<lambda>i. i mod width m"] assms have "fst c = fst c'"
    by (simp add: inGrid_def)
  moreover from arg_cong [OF e, of "\<lambda>i. i div width m"] assms w have "snd c = snd c'"
    by (simp add: inGrid_def)
  ultimately show "c = c'" by (simp add: prod_eq_iff)
qed simp

lemma linearize_inRange:
  assumes "inGrid m c"
  shows "inRange m (linearize m (fst c) (snd c))"
proof -
  from assms have b: "0 \<le> fst c" "fst c < width m" "0 \<le> snd c" "snd c < height m"
    by (simp_all add: inGrid_def)
  have "snd c * width m + fst c < (snd c + 1) * width m" using b by (simp add: algebra_simps)
  also have "\<dots> \<le> height m * width m" using b by (intro mult_right_mono) auto
  finally show ?thesis using b by (simp add: inRange_def linearize_def mult.commute)
qed

lemma cellAt_setEmpty:
  assumes "inGrid m c" "inGrid m c'"
  shows "cellAt (setEmpty m c) c' = (if c' = c then Some Empty else cellAt m c')"
  using linearize_inj [OF assms]
  by (auto simp: cellAt_def setEmpty_def getCellType_def setCellType_def linearize_def)

lemma cellAt_setEmpty_solid:
  "cellAt (setEmpty m c) c' = Some Solid \<Longrightarrow> cellAt m c' = Some Solid"
  by (auto simp: cellAt_def setEmpty_def getCellType_def setCellType_def linearize_def split: if_splits)

lemma emptyCells_setEmpty:
  assumes "inGrid m c"
  shows "emptyCells (setEmpty m c) = insert c (emptyCells m)"
  using assms by (auto simp: emptyCells_def isEmpty_def cellAt_setEmpty)

lemma wellFormed_setEmpty:
  assumes "wellFormed m" "inGrid m c"
  shows "wellFormed (setEmpty m c)"
proof -
  from linearize_inRange [OF assms(2)] assms(1)
  have "\<forall>i. fmlookup (cells (setEmpty m c)) i \<noteq> None \<longleftrightarrow> inRange m i"
    by (auto simp: wellFormed_def setEmpty_def setCellType_def)
  with assms(1) show ?thesis by (simp add: wellFormed_def)
qed

lemma wellFormed_cell:
  assumes "wellFormed m" "inGrid m c"
  shows "cellAt m c = Some Solid \<or> cellAt m c = Some Empty"
proof -
  from assms linearize_inRange [OF assms(2)] obtain v where "cellAt m c = Some v"
    by (auto simp: wellFormed_def cellAt_def getCellType_def)
  then show ?thesis by (cases v) simp_all
qed

lemma hash_inj_nodes:
  assumes "smallGrid m" "node m c" "node m c'"
  shows "hash c = hash c' \<longleftrightarrow> c = c'"
  using assms by (intro hash_inj) (simp_all add: smallGrid_def isNode_def)

subsection \<open>Replaying a chain\<close>

fun carveChain :: "WilsonMaze \<Rightarrow> Vector2 list \<Rightarrow> WilsonMaze" where
  "carveChain m (a # b # r) = carveChain (setEmpty (setEmpty m a) (between a b)) (b # r)"
| "carveChain m _ = m"

fun follows :: "path \<Rightarrow> Vector2 list \<Rightarrow> bool" where
  "follows P (a # b # r) \<longleftrightarrow> (\<exists>d. P (hash a) = Some d \<and> stepIn a d 2 = b) \<and> follows P (b # r)"
| "follows P _ \<longleftrightarrow> True"

lemma follows_stepsOk: "follows P ch \<Longrightarrow> stepsOk ch"
  by (induction P ch rule: follows.induct) auto

lemma follows_upd:
  "follows P ch \<Longrightarrow> (\<forall>a\<in>set (butlast ch). hash a \<noteq> k) \<Longrightarrow> follows (P(k \<mapsto> d)) ch"
  by (induction P ch rule: follows.induct) auto

lemma follows_snoc:
  "follows P ch \<Longrightarrow> ch \<noteq> [] \<Longrightarrow> P (hash (last ch)) = Some d \<Longrightarrow> stepIn (last ch) d 2 = e \<Longrightarrow>
     follows P (ch @ [e])"
  by (induction P ch rule: follows.induct) auto

lemma follows_prefix: "follows P (xs @ ys) \<Longrightarrow> follows P xs"
proof (induction P xs rule: follows.induct)
  case (1 P a b r)
  then show ?case by auto
qed simp_all

subsection \<open>The walk keeps a loop-erased chain\<close>

definition solidChain :: "WilsonMaze \<Rightarrow> Vector2 list \<Rightarrow> bool" where
  "solidChain m ch \<longleftrightarrow> ch \<noteq> [] \<and> distinct ch \<and> (\<forall>c\<in>set ch. node m c \<and> cellAt m c = Some Solid)"

lemma node_step:
  assumes "wellFormed m" "node m c"
    and "\<not> (fst (stepIn c d 2) < 0 \<or> snd (stepIn c d 2) < 0 \<or>
             fst (stepIn c d 2) > width m - 1 \<or> snd (stepIn c d 2) > height m - 1)"
  shows "node m (stepIn c d 2)"
proof -
  let ?n = "stepIn c d 2"
  from assms(2) have "odd (fst c)" "odd (snd c)" by (simp_all add: isNode_def)
  from stepIn_parity [OF this, of d] have o: "odd (fst ?n)" "odd (snd ?n)" by simp_all
  from assms(1) have w: "odd (width m)" "odd (height m)" by (simp_all add: wellFormed_def)
  from assms(3) have b: "0 \<le> fst ?n" "fst ?n \<le> width m - 1" "0 \<le> snd ?n" "snd ?n \<le> height m - 1"
    by simp_all
  have "fst ?n \<noteq> 0" "fst ?n \<noteq> width m - 1" using o w by auto
  moreover have "snd ?n \<noteq> 0" "snd ?n \<noteq> height m - 1" using o w by auto
  ultimately show ?thesis using b o by (simp add: isNode_def)
qed

lemma erase_loop:
  assumes "distinct ch" "n \<in> set ch" "n \<noteq> last ch"
  shows "\<exists>pre suf. ch = pre @ n # suf \<and> suf \<noteq> [] \<and> last ch \<notin> set (pre @ [n])"
proof -
  from assms(2) obtain pre suf where ch: "ch = pre @ n # suf" by (auto simp: in_set_conv_decomp)
  with assms(3) have suf: "suf \<noteq> []" by auto
  then have "last ch = last suf" using ch by simp
  then have "last ch \<in> set suf" using suf by simp
  with assms(1) ch have "last ch \<notin> set (pre @ [n])" by auto
  with ch suf show ?thesis by blast
qed

lemma walk_chain:
  assumes wf: "wellFormed m" and sm: "smallGrid m"
  shows "randomWalk_loop m P cur rs = Some (P', rs') \<Longrightarrow>
         solidChain m ch \<Longrightarrow> last ch = cur \<Longrightarrow> follows P ch \<Longrightarrow>
         \<exists>ch' e. solidChain m ch' \<and> hd ch' = hd ch \<and> follows P' (ch' @ [e]) \<and>
                 node m e \<and> cellAt m e \<noteq> Some Solid"
proof (induction rs arbitrary: P cur ch)
  case Nil
  from Nil.prems(2,3) have "cellAt m cur = Some Solid" by (auto simp: solidChain_def)
  with Nil.prems(1) show ?case by (simp add: cellAt_def)
next
  case (Cons r rs)
  from Cons.prems(2,3) have solid: "getCellType m (fst cur) (snd cur) = Some Solid"
    and ncur: "node m cur" and ne: "ch \<noteq> []" and dist: "distinct ch"
    by (auto simp: solidChain_def cellAt_def)
  let ?d = "randomDir r"
  let ?n = "stepIn cur ?d 2"
  let ?P1 = "P(hash cur \<mapsto> ?d)"
  show ?case
  proof (cases "fst ?n < 0 \<or> snd ?n < 0 \<or> fst ?n > width m - 1 \<or> snd ?n > height m - 1")
    case True
    with solid Cons.prems(1) have "randomWalk_loop m P cur rs = Some (P', rs')"
      by (simp add: Let_def)
    from Cons.IH [OF this Cons.prems(2,3,4)] show ?thesis .
  next
    case inb: False
    have nn: "node m ?n" by (rule node_step [OF wf ncur inb])
    have others: "\<forall>a\<in>set (butlast ch). hash a \<noteq> hash cur"
    proof
      fix a assume a: "a \<in> set (butlast ch)"
      then have "a \<in> set ch" by (rule in_set_butlastD)
      with Cons.prems(2) have na: "node m a" by (simp add: solidChain_def)
      from a dist ne Cons.prems(3) have "a \<noteq> cur"
        by (metis append_butlast_last_id distinct_butlast not_distinct_conv_prefix)
      with hash_inj_nodes [OF sm na ncur] show "hash a \<noteq> hash cur" by simp
    qed
    have f1: "follows ?P1 ch" by (rule follows_upd [OF Cons.prems(4) others])
    have f2: "follows ?P1 (ch @ [?n])"
      by (rule follows_snoc [OF f1 ne]) (simp_all add: Cons.prems(3))
    show ?thesis
    proof (cases "getCellType m (fst ?n) (snd ?n) \<noteq> Some Solid")
      case True
      with solid inb Cons.prems(1) have "P' = ?P1" by (simp add: Let_def)
      with f2 nn True Cons.prems(2)
      have "solidChain m ch \<and> hd ch = hd ch \<and> follows P' (ch @ [?n]) \<and>
            node m ?n \<and> cellAt m ?n \<noteq> Some Solid"
        by (simp add: cellAt_def)
      then show ?thesis by blast
    next
      case False
      then have nsolid: "cellAt m ?n = Some Solid" by (simp add: cellAt_def)
      from False solid inb Cons.prems(1)
      have run: "randomWalk_loop m ?P1 ?n rs = Some (P', rs')" by (simp add: Let_def)
      show ?thesis
      proof (cases "?n \<in> set ch")
        case False
        have sc: "solidChain m (ch @ [?n])"
          using Cons.prems(2) False nn nsolid by (auto simp: solidChain_def)
        from Cons.IH [OF run sc _ f2] ne show ?thesis by simp
      next
        case True
        have "?n \<noteq> last ch" using Cons.prems(3) stepIn_neq [of cur ?d] by simp
        from erase_loop [OF dist True this] obtain pre suf
          where ch: "ch = pre @ ?n # suf" and suf: "suf \<noteq> []" and lst: "last ch \<notin> set (pre @ [?n])"
          by blast
        let ?c1 = "pre @ [?n]"
        have sub: "set ?c1 \<subseteq> set ch" using ch by auto
        have sc: "solidChain m ?c1"
        proof -
          have "distinct ?c1" using dist ch by auto
          with sub Cons.prems(2) show ?thesis by (auto simp: solidChain_def)
        qed
        have "follows P (?c1 @ suf)" using Cons.prems(4) ch by simp
        then have fp: "follows P ?c1" by (rule follows_prefix)
        have "\<forall>a\<in>set (butlast ?c1). hash a \<noteq> hash cur"
        proof
          fix a assume "a \<in> set (butlast ?c1)"
          then have a: "a \<in> set ?c1" by (rule in_set_butlastD)
          with sub Cons.prems(2) have na: "node m a" by (auto simp: solidChain_def)
          from a lst Cons.prems(3) have "a \<noteq> cur" by auto
          with hash_inj_nodes [OF sm na ncur] show "hash a \<noteq> hash cur" by simp
        qed
        from follows_upd [OF fp this] have f3: "follows ?P1 ?c1" .
        have hd: "hd ?c1 = hd ch" using ch by (cases pre) simp_all
        from Cons.IH [OF run sc _ f3] hd show ?thesis by simp
      qed
    qed
  qed
qed

subsection \<open>The replay carves the chain\<close>

lemma mid_inGrid:
  "isNode (width m) (height m) a \<Longrightarrow> isNode (width m) (height m) (stepIn a d 2) \<Longrightarrow>
     inGrid m (stepIn a d 1)"
  by (cases a; cases d) (auto simp: isNode_def inGrid_def)

lemma mid_not_node: "isNode W H a \<Longrightarrow> \<not> isNode W H (stepIn a d 1)"
  using stepIn_parity [of a d] by (auto simp: isNode_def)

lemma carveChain_fields [simp]:
  "width (carveChain m ch) = width m" "height (carveChain m ch) = height m"
  "startIndex (carveChain m ch) = startIndex m" "goalIndex (carveChain m ch) = goalIndex m"
  by (induction m ch rule: carveChain.induct) simp_all

lemma carve_step:
  assumes wf: "wellFormed m" and a: "node m a" "cellAt m a = Some Solid"
    and P: "P (hash a) = Some d" and b: "node m (stepIn a d 2)"
  defines "m2 \<equiv> setEmpty (setEmpty m a) (stepIn a d 1)"
  shows "carve m P a n = carve m2 P (stepIn a d 2) (n - 1)"
    and "wellFormed m2"
    and "\<And>c. node m c \<Longrightarrow> c \<noteq> a \<Longrightarrow> cellAt m2 c = cellAt m c"
    and "\<And>c. cellAt m c \<noteq> Some Solid \<Longrightarrow> cellAt m2 c \<noteq> Some Solid"
proof -
  have ga: "inGrid m a" by (rule node_inGrid [OF a(1)])
  have gb: "inGrid m (stepIn a d 1)" by (rule mid_inGrid [OF a(1) b])
  show "carve m P a n = carve m2 P (stepIn a d 2) (n - 1)"
    using a(2) P by (subst carve.simps) (simp add: cellAt_def m2_def setEmpty_def Let_def)
  show "wellFormed m2"
    unfolding m2_def using wf ga gb by (intro wellFormed_setEmpty) simp_all
  show "cellAt m2 c = cellAt m c" if "node m c" "c \<noteq> a" for c
  proof -
    have gc: "inGrid m c" by (rule node_inGrid [OF that(1)])
    have "c \<noteq> stepIn a d 1" using that(1) mid_not_node [OF a(1), of d] by auto
    then show ?thesis
      unfolding m2_def using that(2) ga gb gc by (simp add: cellAt_setEmpty)
  qed
  show "cellAt m2 c \<noteq> Some Solid" if "cellAt m c \<noteq> Some Solid" for c
    using that unfolding m2_def by (blast dest: cellAt_setEmpty_solid)
qed

lemma carve_chain:
  "wellFormed m \<Longrightarrow> solidChain m ch \<Longrightarrow> follows P (ch @ [e]) \<Longrightarrow> node m e \<Longrightarrow>
   cellAt m e \<noteq> Some Solid \<Longrightarrow>
   carve m P (hd ch) n = Inr (carveChain m (ch @ [e]), n - int (length ch))"
proof (induction ch arbitrary: m n)
  case Nil
  then show ?case by (simp add: solidChain_def)
next
  case (Cons a r)
  let ?b = "hd (r @ [e])"
  from Cons.prems(3) obtain d where d: "P (hash a) = Some d" "stepIn a d 2 = ?b"
    and fr: "follows P (r @ [e])"
    by (cases "r @ [e]") auto
  from Cons.prems(2) have a: "node m a" "cellAt m a = Some Solid"
    and r: "\<forall>c\<in>set r. node m c \<and> cellAt m c = Some Solid" and dist: "distinct (a # r)"
    by (simp_all add: solidChain_def)
  have nb: "node m (stepIn a d 2)"
    using d(2) r Cons.prems(4) by (cases r) simp_all
  let ?m2 = "setEmpty (setEmpty m a) (stepIn a d 1)"
  note st = carve_step [where m = m and a = a and P = P and d = d, OF Cons.prems(1) a d(1) nb]
  have e2: "cellAt ?m2 e \<noteq> Some Solid" by (rule st(4) [OF Cons.prems(5)])
  have cc: "carveChain m ((a # r) @ [e]) = carveChain ?m2 (r @ [e])"
    using d(2) between_stepIn [of a d] by (cases "r @ [e]") simp_all
  show ?case
  proof (cases r)
    case Nil
    with d(2) have "stepIn a d 2 = e" by simp
    with st(1) [of n] e2 have "carve m P a n = Inr (?m2, n - 1)"
      by (simp add: carve.simps [of ?m2] cellAt_def)
    with cc Nil show ?thesis by simp
  next
    case (Cons b r')
    with d(2) have b: "stepIn a d 2 = hd r" by simp
    have sc: "solidChain ?m2 r"
    proof -
      have "cellAt ?m2 c = Some Solid" if "c \<in> set r" for c
      proof -
        from that r dist have "node m c" "c \<noteq> a" "cellAt m c = Some Solid" by auto
        with st(3) [of c] show ?thesis by simp
      qed
      with r dist Cons show ?thesis by (simp add: solidChain_def)
    qed
    have ne: "node ?m2 e" using Cons.prems(4) by simp
    from Cons.IH [OF st(2) sc fr ne e2, of "n - 1"] st(1) [of n] b cc
    show ?thesis by simp
  qed
qed

lemma carveChain_wellFormed:
  "wellFormed m \<Longrightarrow> stepsOk ch \<Longrightarrow> (\<forall>c\<in>set ch. node m c) \<Longrightarrow> wellFormed (carveChain m ch)"
proof (induction m ch rule: carveChain.induct)
  case (1 m a b r)
  from "1.prems"(2) obtain d where d: "stepIn a d 2 = b" by auto
  have ga: "inGrid m a" using "1.prems"(3) by (simp add: node_inGrid)
  have gb: "inGrid m (between a b)"
    using mid_inGrid [of m a d] "1.prems"(3) d between_stepIn [of a d] by simp
  have "wellFormed (setEmpty (setEmpty m a) (between a b))"
    using "1.prems"(1) ga gb by (intro wellFormed_setEmpty) simp_all
  from "1.IH" [OF this] "1.prems" show ?case by simp
qed simp_all

lemma carveChain_emptyCells:
  "stepsOk ch \<Longrightarrow> (\<forall>c\<in>set ch. node m c) \<Longrightarrow>
     emptyCells (carveChain m ch) = emptyCells m \<union> chainCells ch"
proof (induction m ch rule: carveChain.induct)
  case (1 m a b r)
  from "1.prems"(1) obtain d where d: "stepIn a d 2 = b" by auto
  have ga: "inGrid m a" using "1.prems"(2) by (simp add: node_inGrid)
  have gb: "inGrid m (between a b)"
    using mid_inGrid [of m a d] "1.prems"(2) d between_stepIn [of a d] by simp
  let ?m2 = "setEmpty (setEmpty m a) (between a b)"
  have "emptyCells ?m2 = insert (between a b) (insert a (emptyCells m))"
    using ga gb by (simp add: emptyCells_setEmpty)
  moreover have "emptyCells (carveChain ?m2 (b # r)) = emptyCells ?m2 \<union> chainCells (b # r)"
    using "1.prems" by (intro "1.IH") simp_all
  ultimately show ?case by auto
qed simp_all

subsection \<open>The invariant of the generation loop\<close>

definition nodesOf :: "Vector2 set \<Rightarrow> Vector2 set" where
  "nodesOf E = {c \<in> E. odd (fst c) \<and> odd (snd c)}"

text \<open>
  The counter of \<^verbatim>\<open>generateMaze\<close> is the number of intersections less the number of
  carved intersections.
\<close>

definition genInv :: "WilsonMaze \<Rightarrow> int \<Rightarrow> bool" where
  "genInv m n \<longleftrightarrow>
     wellFormed m \<and> smallGrid m \<and> treeInv (width m) (height m) (emptyCells m) \<and>
     n = (width m div 2) * (height m div 2) - int (card (nodesOf (emptyCells m)))"

lemma randomWalk_loop_suffix:
  "randomWalk_loop m P cur rs = Some (P', rs') \<Longrightarrow> \<exists>pre. rs = pre @ rs'"
proof (induction rs arbitrary: P cur)
  case Nil
  then show ?case by (simp split: if_splits)
next
  case (Cons r rs)
  show ?case
  proof (cases "getCellType m (fst cur) (snd cur) = Some Solid")
    case False
    with Cons.prems show ?thesis by simp
  next
    case solid: True
    let ?n = "stepIn cur (randomDir r) 2"
    show ?thesis
    proof (cases "fst ?n < 0 \<or> snd ?n < 0 \<or> fst ?n > width m - 1 \<or> snd ?n > height m - 1")
      case True
      with solid Cons.prems have "randomWalk_loop m P cur rs = Some (P', rs')"
        by (simp add: Let_def)
      from Cons.IH [OF this] obtain pre where "rs = pre @ rs'" ..
      then have "r # rs = (r # pre) @ rs'" by simp
      then show ?thesis ..
    next
      case inb: False
      show ?thesis
      proof (cases "getCellType m (fst ?n) (snd ?n) \<noteq> Some Solid")
        case True
        with solid inb Cons.prems have "r # rs = [r] @ rs'" by (simp add: Let_def)
        then show ?thesis ..
      next
        case False
        with solid inb Cons.prems
        have "randomWalk_loop m (P(hash cur \<mapsto> randomDir r)) ?n rs = Some (P', rs')"
          by (simp add: Let_def)
        from Cons.IH [OF this] obtain pre where "rs = pre @ rs'" ..
        then have "r # rs = (r # pre) @ rs'" by simp
        then show ?thesis ..
      qed
    qed
  qed
qed

lemma randomWalk_draws_ok:
  assumes "randomWalk m c rs = Some (P, rs')" "draws_ok rs"
  shows "draws_ok rs'"
proof -
  from assms(1) obtain pre where "rs = pre @ rs'"
    unfolding randomWalk_def by (blast dest: randomWalk_loop_suffix)
  with assms(2) show ?thesis by (simp add: draws_ok_def)
qed

lemma genInv_iteration:
  assumes inv: "genInv m n"
    and rx: "isDraw rx" and rz: "isDraw rz"
    and walk: "randomWalk m (randomOddCell m rx rz) rs = Some (P, rs')"
  shows "\<exists>m' n'. carve m P (randomOddCell m rx rz) n = Inr (m', n') \<and> genInv m' n' \<and>
           startIndex m' = startIndex m \<and> goalIndex m' = goalIndex m \<and>
           width m' = width m \<and> height m' = height m"
proof -
  let ?s = "randomOddCell m rx rz"
  from inv have wf: "wellFormed m" and sm: "smallGrid m"
    and tr: "treeInv (width m) (height m) (emptyCells m)"
    and n: "n = (width m div 2) * (height m div 2) - int (card (nodesOf (emptyCells m)))"
    by (simp_all add: genInv_def)
  from wf have dims: "odd (width m)" "3 \<le> width m" "odd (height m)" "3 \<le> height m"
    by (simp_all add: wellFormed_def)
  have ns: "node m ?s"
    using randomOddCell_range' [OF dims rx rz] by (simp add: isNode_def)
  show ?thesis
  proof (cases "cellAt m ?s = Some Solid")
    case False
    then have "carve m P ?s n = Inr (m, n)" by (simp add: carve.simps cellAt_def)
    with inv show ?thesis by simp
  next
    case True
    have sc: "solidChain m [?s]" using ns True by (simp add: solidChain_def)
    from walk have "randomWalk_loop m Map.empty ?s rs = Some (P, rs')" by (simp add: randomWalk_def)
    from walk_chain [OF wf sm this sc] obtain ch e
      where ch: "solidChain m ch" "hd ch = ?s" "follows P (ch @ [e])" "node m e"
        "cellAt m e \<noteq> Some Solid"
      by auto
    let ?full = "ch @ [e]"
    let ?m' = "carveChain m ?full"
    from carve_chain [OF wf ch(1,3,4,5), of n] ch(2)
    have carve: "carve m P ?s n = Inr (?m', n - int (length ch))" by simp
    have nodes: "\<forall>c\<in>set ?full. node m c" using ch(1,4) by (simp add: solidChain_def)
    have steps: "stepsOk ?full" by (rule follows_stepsOk [OF ch(3)])
    have wf': "wellFormed ?m'" by (rule carveChain_wellFormed [OF wf steps nodes])
    have E': "emptyCells ?m' = emptyCells m \<union> chainCells ?full"
      by (rule carveChain_emptyCells [OF steps nodes])
    have eE: "e \<in> emptyCells m"
      using wellFormed_cell [OF wf node_inGrid [OF ch(4)]] ch(4,5)
      by (simp add: emptyCells_def isEmpty_def node_inGrid)
    have notE: "c \<notin> emptyCells m" if "c \<in> set ch" for c
      using that ch(1) by (auto simp: solidChain_def emptyCells_def isEmpty_def)
    have "e \<notin> set ch" using eE notE [of e] by blast
    with ch(1) have dist: "distinct ?full" by (simp add: solidChain_def)
    have tr': "treeInv (width m) (height m) (emptyCells m \<union> chainCells ?full)"
    proof (rule chain_attach [OF tr _ dist steps])
      show "?full \<noteq> []" by simp
      show "\<forall>c\<in>set (butlast ?full). isNode (width m) (height m) c \<and> c \<notin> emptyCells m"
        using ch(1) notE by (simp add: solidChain_def)
      show "last ?full \<in> emptyCells m" using eE by simp
      show "odd (fst (last ?full)) \<and> odd (snd (last ?full))" using ch(4) by (simp add: isNode_def)
    qed
    have oddall: "\<forall>c\<in>set ?full. odd (fst c) \<and> odd (snd c)" using nodes by (simp add: isNode_def)
    have "nodesOf (emptyCells m \<union> chainCells ?full) = nodesOf (emptyCells m) \<union> set ch"
      using chainCells_nodes [OF steps oddall] by (auto simp: nodesOf_def)
    moreover have "nodesOf (emptyCells m) \<inter> set ch = {}" using notE by (auto simp: nodesOf_def)
    moreover have "finite (nodesOf (emptyCells m))"
      using treeInv_finite [OF tr] by (simp add: nodesOf_def)
    moreover have "card (set ch) = length ch" using ch(1) by (simp add: solidChain_def distinct_card)
    ultimately have "card (nodesOf (emptyCells m \<union> chainCells ?full)) =
        card (nodesOf (emptyCells m)) + length ch"
      by (simp add: card_Un_disjoint)
    moreover have "smallGrid ?m'" using sm by (simp add: smallGrid_def)
    ultimately have "genInv ?m' (n - int (length ch))"
      using wf' tr' E' n by (simp add: genInv_def)
    with carve show ?thesis by simp
  qed
qed

lemma genInv_loop:
  "genInv m n \<Longrightarrow> draws_ok rs \<Longrightarrow> generateMaze_loop m n rs = Some (Inr m') \<Longrightarrow>
     (\<exists>n'. genInv m' n' \<and> n' \<le> 0) \<and> startIndex m' = startIndex m \<and> goalIndex m' = goalIndex m \<and>
     width m' = width m \<and> height m' = height m"
proof (induction m n rs rule: generateMaze_loop.induct)
  case (1 m n rs)
  show ?case
  proof (cases "n > 0")
    case False
    with "1.prems"(3) have "m' = m" by (simp add: generateMaze_loop.simps)
    with False "1.prems"(1) show ?thesis by auto
  next
    case True
    with "1.prems"(3) obtain rx rz rs1 where rs: "rs = rx # rz # rs1"
      by (cases rs; cases "tl rs") (auto simp: generateMaze_loop.simps [of m])
    let ?s = "randomOddCell m rx rz"
    from "1.prems"(3) True rs obtain P rs2 where w: "randomWalk m ?s rs1 = Some (P, rs2)"
      by (cases "randomWalk m ?s rs1") (auto simp: generateMaze_loop.simps [of m])
    from "1.prems"(2) rs have r: "isDraw rx" "isDraw rz" and ok1: "draws_ok rs1"
      by (simp_all add: draws_ok_def)
    from genInv_iteration [OF "1.prems"(1) r w] obtain m1 n1
      where c: "carve m P ?s n = Inr (m1, n1)" and inv1: "genInv m1 n1"
        and f: "startIndex m1 = startIndex m" "goalIndex m1 = goalIndex m"
          "width m1 = width m" "height m1 = height m"
      by blast
    have ok2: "draws_ok rs2" by (rule randomWalk_draws_ok [OF w ok1])
    from "1.prems"(3) True rs w c have run: "generateMaze_loop m1 n1 rs2 = Some (Inr m')"
      by (simp add: generateMaze_loop.simps [of m])
    from "1.IH" [OF True rs refl refl w refl c refl inv1 ok2 run] f
    show ?thesis by simp
  qed
qed

subsection \<open>The maze the constructor starts from\<close>

lemma pairsIn_single: "pairsIn {c} = {}"
  by (auto simp: pairsIn_def adjacent_def)

lemma treeInv_initial:
  assumes "3 \<le> W" "3 \<le> H"
  shows "treeInv W H {(1, 1)}"
  using assms by (simp add: treeInv_def pairsIn_single)

definition freshMaze :: "int \<Rightarrow> int \<Rightarrow> WilsonMaze" where
  "freshMaze W H =
     \<lparr>width = W, height = H, cells = fmupd (W + 1) Empty (initCells W H),
      startIndex = W + 1, goalIndex = (H - 2) * W + (W - 2)\<rparr>"

lemma WilsonMaze_new_default:
  assumes "\<not> (roundUpOdd w * roundUpOdd h < 0 \<or> roundUpOdd w * roundUpOdd h \<ge> 2 ^ 32)"
  shows "WilsonMaze_new w h None None rs =
           generateMaze (freshMaze (roundUpOdd w) (roundUpOdd h)) rs"
  using assms by (simp add: WilsonMaze_new_def Let_def linearize_def freshMaze_def)

lemma WilsonMaze_new_returns:
  assumes "WilsonMaze_new w h None None rs = Some (Inr m)"
  shows "generateMaze (freshMaze (roundUpOdd w) (roundUpOdd h)) rs = Some (Inr m)"
proof (cases "roundUpOdd w * roundUpOdd h < 0 \<or> roundUpOdd w * roundUpOdd h \<ge> 2 ^ 32")
  case True
  with assms show ?thesis by (simp add: WilsonMaze_new_def Let_def)
next
  case False
  from WilsonMaze_new_default [OF this] assms show ?thesis by simp
qed

lemma freshMaze_emptyCells:
  assumes "3 \<le> W" "3 \<le> H"
  shows "emptyCells (freshMaze W H) = {(1, 1)}"
proof -
  let ?m = "freshMaze W H"
  have g1: "inGrid ?m (1, 1)" using assms by (simp add: inGrid_def freshMaze_def)
  have w: "0 < W" using assms by simp
  have "isEmpty ?m c \<longleftrightarrow> c = (1, 1)" for c
  proof (cases "inGrid ?m c")
    case False
    with g1 show ?thesis by (auto simp: isEmpty_def)
  next
    case True
    have 1: "cellAt ?m c = Some Empty \<longleftrightarrow> linearize ?m (fst c) (snd c) = W + 1"
      using w by (auto simp: cellAt_def getCellType_def freshMaze_def initCells_lookup)
    have 2: "linearize ?m 1 1 = W + 1"
      by (simp add: linearize_def freshMaze_def)
    have 3: "linearize ?m (fst c) (snd c) = linearize ?m 1 1 \<longleftrightarrow> c = (1, 1)"
      using linearize_inj [OF True g1] by simp
    show ?thesis using True 1 2 3 by (simp add: isEmpty_def)
  qed
  then show ?thesis by (auto simp: emptyCells_def)
qed

lemma freshMaze_wellFormed:
  assumes "odd W" "3 \<le> W" "odd H" "3 \<le> H"
  shows "wellFormed (freshMaze W H)"
proof -
  have "W + 1 < W * 3" using assms by simp
  also have "\<dots> \<le> W * H" using assms by (intro mult_left_mono) simp_all
  finally have "0 \<le> W + 1 \<and> W + 1 < W * H" using assms by simp
  moreover have "0 < W" using assms by simp
  ultimately have "\<forall>i. fmlookup (cells (freshMaze W H)) i \<noteq> None \<longleftrightarrow> inRange (freshMaze W H) i"
    by (auto simp: freshMaze_def initCells_lookup inRange_def)
  with assms show ?thesis by (simp add: wellFormed_def freshMaze_def)
qed

lemma freshMaze_genInv:
  assumes "odd W" "3 \<le> W" "W \<le> 65537" "odd H" "3 \<le> H" "H \<le> 65537"
  shows "genInv (freshMaze W H) ((W div 2) * (H div 2) - 1)"
proof -
  have "nodesOf {(1, 1)} = {(1, 1)}" by (auto simp: nodesOf_def)
  moreover have "smallGrid (freshMaze W H)" using assms by (simp add: smallGrid_def freshMaze_def)
  ultimately show ?thesis
    using freshMaze_wellFormed [OF assms(1,2,4,5)] freshMaze_emptyCells [OF assms(2,5)]
      treeInv_initial [OF assms(2,5)]
    by (simp add: genInv_def freshMaze_def)
qed

subsection \<open>All intersections are carved at the end\<close>

lemma nodes_image:
  assumes "odd W" "odd H"
  shows "{c. isNode W H c} = (\<lambda>(i, j). (2 * i + 1, 2 * j + 1)) ` ({0..W div 2 - 1} \<times> {0..H div 2 - 1})"
proof (intro equalityI subsetI)
  fix c assume "c \<in> {c. isNode W H c}"
  then have c: "odd (fst c)" "odd (snd c)" "1 \<le> fst c" "fst c \<le> W - 2" "1 \<le> snd c" "snd c \<le> H - 2"
    by (simp_all add: isNode_def)
  obtain i j where ij: "fst c = 2 * i + 1" "snd c = 2 * j + 1" using c(1,2) by (auto elim!: oddE)
  obtain a b where ab: "W = 2 * a + 1" "H = 2 * b + 1" using assms by (auto elim!: oddE)
  have "i \<in> {0..W div 2 - 1}" "j \<in> {0..H div 2 - 1}" using c ij ab by auto
  moreover have "c = (2 * i + 1, 2 * j + 1)" using ij by (simp add: prod_eq_iff)
  ultimately show "c \<in> (\<lambda>(i, j). (2 * i + 1, 2 * j + 1)) ` ({0..W div 2 - 1} \<times> {0..H div 2 - 1})"
    by (intro image_eqI [where x = "(i, j)"]) auto
next
  fix c assume "c \<in> (\<lambda>(i, j). (2 * i + 1, 2 * j + 1)) ` ({0..W div 2 - 1} \<times> {0..H div 2 - 1})"
  then obtain i j where ij: "c = (2 * i + 1, 2 * j + 1)" "0 \<le> i" "i \<le> W div 2 - 1" "0 \<le> j" "j \<le> H div 2 - 1"
    by auto
  obtain a b where ab: "W = 2 * a + 1" "H = 2 * b + 1" using assms by (auto elim!: oddE)
  show "c \<in> {c. isNode W H c}" using ij ab by (simp add: isNode_def)
qed

lemma card_nodes:
  assumes "odd W" "odd H" "3 \<le> W" "3 \<le> H"
  shows "finite {c. isNode W H c}" "int (card {c. isNode W H c}) = (W div 2) * (H div 2)"
proof -
  let ?f = "\<lambda>(i :: int, j :: int). (2 * i + 1, 2 * j + 1)"
  let ?D = "{0..W div 2 - 1} \<times> {0..H div 2 - 1}"
  have inj: "inj_on ?f ?D" by (auto simp: inj_on_def)
  have eq: "{c. isNode W H c} = ?f ` ?D" by (rule nodes_image [OF assms(1,2)])
  show "finite {c. isNode W H c}" unfolding eq by simp
  have "card {c. isNode W H c} = card ?D" unfolding eq by (rule card_image [OF inj])
  also have "\<dots> = nat (W div 2) * nat (H div 2)" by simp
  finally show "int (card {c. isNode W H c}) = (W div 2) * (H div 2)"
    using assms(3,4) by simp
qed

lemma genInv_done:
  assumes "genInv m n" "n \<le> 0"
  shows "nodesOf (emptyCells m) = {c. node m c}"
proof -
  from assms(1) have wf: "wellFormed m" and tr: "treeInv (width m) (height m) (emptyCells m)"
    and n: "n = (width m div 2) * (height m div 2) - int (card (nodesOf (emptyCells m)))"
    by (simp_all add: genInv_def)
  from wf have dims: "odd (width m)" "odd (height m)" "3 \<le> width m" "3 \<le> height m"
    by (simp_all add: wellFormed_def)
  note cn = card_nodes [OF dims]
  have sub: "nodesOf (emptyCells m) \<subseteq> {c. node m c}"
    using treeInv_range [OF tr] by (auto simp: nodesOf_def isNode_def)
  have "card {c. node m c} \<le> card (nodesOf (emptyCells m))"
    using n assms(2) cn(2) by simp
  from card_seteq [OF cn(1) sub this] show ?thesis .
qed

lemma roundUpOdd_bounds:
  assumes "2 \<le> n" "n \<le> 65537"
  shows "3 \<le> roundUpOdd n" "roundUpOdd n \<le> 65537"
proof -
  show "3 \<le> roundUpOdd n" using assms(1) by (cases "n = 2") (auto simp: roundUpOdd_eq)
  show "roundUpOdd n \<le> 65537" using assms(2) by (cases "n = 65537") (auto simp: roundUpOdd_eq)
qed

text \<open>What holds of every maze the constructor returns for dimensions from 2 to \<open>2^16 + 1\<close>.\<close>

lemma generated_maze:
  assumes "2 \<le> w" "w \<le> 65537" "2 \<le> h" "h \<le> 65537" "draws_ok rs"
    and "WilsonMaze_new w h None None rs = Some (Inr m)"
  shows "wellFormed m" "treeInv (width m) (height m) (emptyCells m)"
    "nodesOf (emptyCells m) = {c. node m c}"
    "width m = roundUpOdd w" "height m = roundUpOdd h"
    "startIndex m = width m + 1" "goalIndex m = (height m - 2) * width m + (width m - 2)"
proof -
  let ?W = "roundUpOdd w" and ?H = "roundUpOdd h"
  have dims: "odd ?W" "3 \<le> ?W" "?W \<le> 65537" "odd ?H" "3 \<le> ?H" "?H \<le> 65537"
    using roundUpOdd_bounds [OF assms(1,2)] roundUpOdd_bounds [OF assms(3,4)]
    by (simp_all add: roundUpOdd_odd)
  from WilsonMaze_new_returns [OF assms(6)]
  have run: "generateMaze_loop (freshMaze ?W ?H) ((?W div 2) * (?H div 2) - 1) rs = Some (Inr m)"
    by (simp add: generateMaze_def freshMaze_def)
  from genInv_loop [OF freshMaze_genInv [OF dims] assms(5) run]
  obtain n' where inv: "genInv m n'" "n' \<le> 0"
    and f: "startIndex m = startIndex (freshMaze ?W ?H)" "goalIndex m = goalIndex (freshMaze ?W ?H)"
       "width m = width (freshMaze ?W ?H)" "height m = height (freshMaze ?W ?H)"
    by blast
  from inv(1) show "wellFormed m" "treeInv (width m) (height m) (emptyCells m)"
    by (simp_all add: genInv_def)
  from genInv_done [OF inv] show "nodesOf (emptyCells m) = {c. node m c}" .
  from f show "width m = ?W" "height m = ?H" by (simp_all add: freshMaze_def)
  from f show "startIndex m = width m + 1" "goalIndex m = (height m - 2) * width m + (width m - 2)"
    by (simp_all add: freshMaze_def)
qed

subsection \<open>A run on a 3 by 5 grid\<close>

definition maze_3_5 :: WilsonMaze where
  "maze_3_5 = \<lparr>width = 3, height = 5,
                cells = fmupd 7 Empty (fmupd 10 Empty (fmupd 4 Empty (initCells 3 5))),
                startIndex = 4, goalIndex = 10\<rparr>"

lemma run_3_5: "WilsonMaze_new 3 5 None None [(0, 0), (1, 1), (0, 0)] = Some (Inr maze_3_5)"
  by (simp add: WilsonMaze_new_def roundUpOdd_def linearize_def generateMaze_def
      generateMaze_loop.simps randomOddCell_def randomWalk_def getCellType_def
      initCells_lookup randomDir_def draw_eval carve.simps setCellType_def maze_3_5_def)

lemma draws_3_5: "draws_ok [(0, 0), (1, 1), (0, 0)]"
  by (simp add: draws_ok_def isDraw_def)

lemma maze_3_5_cells:
  "(1, 1) \<in> emptyCells maze_3_5" "(1, 2) \<in> emptyCells maze_3_5" "(1, 3) \<in> emptyCells maze_3_5"
  by (simp_all add: emptyCells_def isEmpty_def inGrid_def cellAt_def getCellType_def
      linearize_def maze_3_5_def)


section \<open>Straight walks\<close>

lemma stepIn_add: "stepIn (stepIn c d a) d b = stepIn c d (a + b)"
  by (cases c; cases d) simp_all

lemma stepIn_zero [simp]: "stepIn c d 0 = c"
  by (cases c; cases d) simp_all

lemma stepIn_inj: "stepIn c d a = stepIn c d b \<longleftrightarrow> a = b"
  by (cases c; cases d) auto

text \<open>The path after \<open>k\<close> recorded steps in the direction \<open>d\<close>, starting at \<open>c\<close>.\<close>

fun pathAlong :: "path \<Rightarrow> Vector2 \<Rightarrow> Direction \<Rightarrow> nat \<Rightarrow> path" where
  "pathAlong P c d 0 = P"
| "pathAlong P c d (Suc k) = pathAlong (P(hash c \<mapsto> d)) (stepIn c d 2) d k"

lemma pathAlong_lookup:
  "pathAlong P c d k key =
     (if \<exists>i<k. hash (stepIn c d (2 * int i)) = key then Some d else P key)"
proof (induction k arbitrary: P c)
  case 0
  then show ?case by simp
next
  case (Suc k)
  have split: "(\<exists>i<Suc k. hash (stepIn c d (2 * int i)) = key) \<longleftrightarrow>
      hash c = key \<or> (\<exists>i<k. hash (stepIn (stepIn c d 2) d (2 * int i)) = key)"
  proof
    assume "\<exists>i<Suc k. hash (stepIn c d (2 * int i)) = key"
    then obtain i where i: "i < Suc k" "hash (stepIn c d (2 * int i)) = key" by blast
    show "hash c = key \<or> (\<exists>i<k. hash (stepIn (stepIn c d 2) d (2 * int i)) = key)"
    proof (cases i)
      case 0 with i show ?thesis by simp
    next
      case (Suc j)
      with i have "j < k" "hash (stepIn (stepIn c d 2) d (2 * int j)) = key"
        by (simp_all add: stepIn_add algebra_simps)
      then show ?thesis by blast
    qed
  next
    assume "hash c = key \<or> (\<exists>i<k. hash (stepIn (stepIn c d 2) d (2 * int i)) = key)"
    then show "\<exists>i<Suc k. hash (stepIn c d (2 * int i)) = key"
    proof
      assume "hash c = key"
      then have "hash (stepIn c d (2 * int 0)) = key" by simp
      then show ?thesis by blast
    next
      assume "\<exists>i<k. hash (stepIn (stepIn c d 2) d (2 * int i)) = key"
      then obtain i where "i < k" "hash (stepIn (stepIn c d 2) d (2 * int i)) = key" by blast
      then have "Suc i < Suc k" "hash (stepIn c d (2 * int (Suc i))) = key"
        by (simp_all add: stepIn_add algebra_simps)
      then show ?thesis by blast
    qed
  qed
  show ?case unfolding split by (auto simp: Suc.IH)
qed

lemma pathAlong_snoc:
  "pathAlong P c d (Suc k) = (pathAlong P c d k)(hash (stepIn c d (2 * int k)) \<mapsto> d)"
proof (induction k arbitrary: P c)
  case 0
  then show ?case by simp
next
  case (Suc k)
  have "pathAlong P c d (Suc (Suc k)) = pathAlong (P(hash c \<mapsto> d)) (stepIn c d 2) d (Suc k)"
    by simp
  also have "\<dots> = (pathAlong (P(hash c \<mapsto> d)) (stepIn c d 2) d k)
                      (hash (stepIn (stepIn c d 2) d (2 * int k)) \<mapsto> d)"
    by (rule Suc.IH)
  finally show ?case by (simp add: stepIn_add algebra_simps)
qed

lemma walk_run:
  assumes d: "randomDir r = d"
  shows "(\<forall>i\<le>k. cellAt m (stepIn c d (2 * int i)) = Some Solid) \<Longrightarrow>
         (\<forall>i\<le>k. inGrid m (stepIn c d (2 * int i))) \<Longrightarrow>
         randomWalk_loop m P c (replicate k r @ rs) =
           randomWalk_loop m (pathAlong P c d k) (stepIn c d (2 * int k)) rs"
proof (induction k arbitrary: P c)
  case 0
  then show ?case by simp
next
  case (Suc k)
  let ?c' = "stepIn c d 2"
  have shift: "stepIn ?c' d (2 * int i) = stepIn c d (2 * int (Suc i))" for i
    by (simp add: stepIn_add algebra_simps)
  from Suc.prems(1) have c0: "getCellType m (fst c) (snd c) = Some Solid"
    by (auto simp: cellAt_def dest: spec [of _ 0])
  from Suc.prems(1) have c1: "getCellType m (fst ?c') (snd ?c') = Some Solid"
    using shift [of 0] by (auto simp: cellAt_def dest!: spec [of _ 1])
  from Suc.prems(2) have "inGrid m ?c'"
    using shift [of 0] by (auto dest!: spec [of _ 1])
  then have inb: "\<not> (fst ?c' < 0 \<or> snd ?c' < 0 \<or> fst ?c' > width m - 1 \<or> snd ?c' > height m - 1)"
    by (auto simp: inGrid_def)
  have step: "randomWalk_loop m P c (r # replicate k r @ rs) =
      randomWalk_loop m (P(hash c \<mapsto> d)) ?c' (replicate k r @ rs)"
    using c0 c1 inb by (simp add: d Let_def)
  have s1: "\<forall>i\<le>k. cellAt m (stepIn ?c' d (2 * int i)) = Some Solid"
    unfolding shift using Suc.prems(1) by auto
  have s2: "\<forall>i\<le>k. inGrid m (stepIn ?c' d (2 * int i))"
    unfolding shift using Suc.prems(2) by auto
  have "randomWalk_loop m (P(hash c \<mapsto> d)) ?c' (replicate k r @ rs) =
      randomWalk_loop m (pathAlong (P(hash c \<mapsto> d)) ?c' d k) (stepIn ?c' d (2 * int k)) rs"
    by (rule Suc.IH [OF s1 s2])
  with step show ?case by (simp add: shift)
qed

lemma walk_run_end:
  assumes d: "randomDir r = d"
    and solid: "\<forall>i<Suc k. cellAt m (stepIn c d (2 * int i)) = Some Solid"
    and grid: "\<forall>i\<le>Suc k. inGrid m (stepIn c d (2 * int i))"
    and last: "cellAt m (stepIn c d (2 * int (Suc k))) \<noteq> Some Solid"
  shows "randomWalk_loop m P c (replicate (Suc k) r @ rs) = Some (pathAlong P c d (Suc k), rs)"
proof -
  let ?ck = "stepIn c d (2 * int k)"
  have s1: "\<forall>i\<le>k. cellAt m (stepIn c d (2 * int i)) = Some Solid" using solid by auto
  have s2: "\<forall>i\<le>k. inGrid m (stepIn c d (2 * int i))" using grid by auto
  have "replicate (Suc k) r @ rs = replicate k r @ (r # rs)"
    by (simp add: replicate_app_Cons_same)
  then have "randomWalk_loop m P c (replicate (Suc k) r @ rs) =
      randomWalk_loop m (pathAlong P c d k) ?ck (r # rs)"
    using walk_run [OF d s1 s2, of P "r # rs"] by simp
  moreover have nxt: "stepIn ?ck d 2 = stepIn c d (2 * int (Suc k))"
    by (simp add: stepIn_add algebra_simps)
  moreover have "getCellType m (fst ?ck) (snd ?ck) = Some Solid"
    using s1 by (auto simp: cellAt_def)
  moreover have "inGrid m (stepIn ?ck d 2)" unfolding nxt using grid by auto
  then have "\<not> (fst (stepIn ?ck d 2) < 0 \<or> snd (stepIn ?ck d 2) < 0 \<or>
      fst (stepIn ?ck d 2) > width m - 1 \<or> snd (stepIn ?ck d 2) > height m - 1)"
    by (auto simp: inGrid_def)
  moreover have "getCellType m (fst (stepIn ?ck d 2)) (snd (stepIn ?ck d 2)) \<noteq> Some Solid"
    unfolding nxt using last by (simp add: cellAt_def)
  ultimately show ?thesis
    by (simp add: d Let_def pathAlong_snoc del: pathAlong.simps)
qed

text \<open>The \<open>k\<close> intersections met from \<open>c\<close> in the direction \<open>d\<close>.\<close>

fun line :: "Vector2 \<Rightarrow> Direction \<Rightarrow> nat \<Rightarrow> Vector2 list" where
  "line c d 0 = []"
| "line c d (Suc k) = c # line (stepIn c d 2) d k"

lemma set_line: "set (line c d k) = (\<lambda>i. stepIn c d (2 * int i)) ` {..<k}"
proof (induction k arbitrary: c)
  case 0
  then show ?case by simp
next
  case (Suc k)
  have "(\<lambda>i. stepIn c d (2 * int i)) ` {..<Suc k} =
        insert c ((\<lambda>i. stepIn (stepIn c d 2) d (2 * int i)) ` {..<k})"
  proof (intro equalityI subsetI)
    fix a assume "a \<in> (\<lambda>i. stepIn c d (2 * int i)) ` {..<Suc k}"
    then obtain i where i: "i < Suc k" "a = stepIn c d (2 * int i)" by auto
    show "a \<in> insert c ((\<lambda>i. stepIn (stepIn c d 2) d (2 * int i)) ` {..<k})"
    proof (cases i)
      case 0 with i show ?thesis by simp
    next
      case (Suc j)
      with i have "j < k" "a = stepIn (stepIn c d 2) d (2 * int j)"
        by (simp_all add: stepIn_add algebra_simps)
      then show ?thesis by blast
    qed
  next
    fix a assume "a \<in> insert c ((\<lambda>i. stepIn (stepIn c d 2) d (2 * int i)) ` {..<k})"
    then consider "a = c" | i where "i < k" "a = stepIn (stepIn c d 2) d (2 * int i)" by auto
    then show "a \<in> (\<lambda>i. stepIn c d (2 * int i)) ` {..<Suc k}"
    proof cases
      case 1
      then have "a = stepIn c d (2 * int 0)" by simp
      then show ?thesis by blast
    next
      case 2
      then have "Suc i < Suc k" "a = stepIn c d (2 * int (Suc i))"
        by (simp_all add: stepIn_add algebra_simps)
      then show ?thesis by blast
    qed
  qed
  with Suc.IH [of "stepIn c d 2"] show ?case by simp
qed

lemma in_line: "a \<in> set (line c d k) \<longleftrightarrow> (\<exists>i<k. a = stepIn c d (2 * int i))"
  unfolding set_line by auto

lemma distinct_line: "distinct (line c d k)"
proof (induction k arbitrary: c)
  case 0
  then show ?case by simp
next
  case (Suc k)
  have "c \<notin> set (line (stepIn c d 2) d k)"
  proof
    assume "c \<in> set (line (stepIn c d 2) d k)"
    then obtain i where "c = stepIn (stepIn c d 2) d (2 * int i)" unfolding in_line by blast
    then have "stepIn c d 0 = stepIn c d (2 + 2 * int i)" by (simp add: stepIn_add)
    then show False unfolding stepIn_inj by simp
  qed
  with Suc.IH show ?case by simp
qed

lemma length_line [simp]: "length (line c d k) = k"
  by (induction k arbitrary: c) simp_all

lemma hd_line: "hd (line c d (Suc k)) = c"
  by simp

lemma follows_line:
  "(\<forall>i<k. P (hash (stepIn c d (2 * int i))) = Some d) \<Longrightarrow>
     follows P (line c d k @ [stepIn c d (2 * int k)])"
proof (induction k arbitrary: c)
  case 0
  then show ?case by simp
next
  case (Suc k)
  let ?c' = "stepIn c d 2"
  have shift: "stepIn ?c' d (2 * int i) = stepIn c d (2 * int (Suc i))" for i
    by (simp add: stepIn_add algebra_simps)
  have "\<forall>i<k. P (hash (stepIn ?c' d (2 * int i))) = Some d"
    unfolding shift using Suc.prems by auto
  from Suc.IH [OF this] have rest: "follows P (line ?c' d k @ [stepIn c d (2 * int (Suc k))])"
    by (simp add: shift)
  from Suc.prems have P0: "P (hash c) = Some d" by (auto dest: spec [of _ 0])
  show ?case
  proof (cases k)
    case 0
    with P0 show ?thesis by simp
  next
    case (Suc j)
    with P0 rest show ?thesis by simp
  qed
qed

lemma chainCells_line:
  "chainCells (line c d k @ [stepIn c d (2 * int k)]) = (\<lambda>i. stepIn c d (int i)) ` {..<2 * k}"
proof (induction k arbitrary: c)
  case 0
  then show ?case by simp
next
  case (Suc k)
  let ?c' = "stepIn c d 2"
  have shift: "stepIn ?c' d i = stepIn c d (2 + i)" for i
    by (simp add: stepIn_add)
  have IH: "chainCells (line ?c' d k @ [stepIn c d (2 * int (Suc k))]) =
      (\<lambda>i. stepIn c d (2 + int i)) ` {..<2 * k}"
    using Suc.IH [of ?c'] by (simp add: shift algebra_simps)
  have unfold: "chainCells (line c d (Suc k) @ [stepIn c d (2 * int (Suc k))]) =
      insert c (insert (stepIn c d 1) (chainCells (line ?c' d k @ [stepIn c d (2 * int (Suc k))])))"
  proof (cases k)
    case 0
    then show ?thesis using between_stepIn [of c d] by simp
  next
    case (Suc j)
    then show ?thesis using between_stepIn [of c d] by simp
  qed
  have img: "(\<lambda>i. stepIn c d (int i)) ` {..<2 * Suc k} =
      insert c (insert (stepIn c d 1) ((\<lambda>i. stepIn c d (2 + int i)) ` {..<2 * k}))"
  proof (intro equalityI subsetI)
    fix a assume "a \<in> (\<lambda>i. stepIn c d (int i)) ` {..<2 * Suc k}"
    then obtain i where i: "i < 2 * Suc k" "a = stepIn c d (int i)" by auto
    consider "i = 0" | "i = 1" | j where "i = j + 2" by (metis add_2_eq_Suc' less_one linorder_neqE_nat not_less_eq old.nat.exhaust One_nat_def)
    then show "a \<in> insert c (insert (stepIn c d 1) ((\<lambda>i. stepIn c d (2 + int i)) ` {..<2 * k}))"
    proof cases
      case 1 with i show ?thesis by simp
    next
      case 2 with i show ?thesis by simp
    next
      case 3
      with i have "j < 2 * k" "a = stepIn c d (2 + int j)" by (simp_all add: algebra_simps)
      then show ?thesis by blast
    qed
  next
    fix a assume "a \<in> insert c (insert (stepIn c d 1) ((\<lambda>i. stepIn c d (2 + int i)) ` {..<2 * k}))"
    then consider "a = c" | "a = stepIn c d 1" | j where "j < 2 * k" "a = stepIn c d (2 + int j)"
      by auto
    then show "a \<in> (\<lambda>i. stepIn c d (int i)) ` {..<2 * Suc k}"
    proof cases
      case 1
      then have "a = stepIn c d (int 0)" by simp
      moreover have "0 < 2 * Suc k" by simp
      ultimately show ?thesis by blast
    next
      case 2
      then have "a = stepIn c d (int 1)" by simp
      moreover have "1 < 2 * Suc k" by simp
      ultimately show ?thesis by blast
    next
      case 3
      then have "a = stepIn c d (int (j + 2))" "j + 2 < 2 * Suc k" by (simp_all add: algebra_simps)
      then show ?thesis by blast
    qed
  qed
  show ?case unfolding unfold IH img ..
qed

lemma carveChain_cellAt:
  "wellFormed m \<Longrightarrow> stepsOk ch \<Longrightarrow> (\<forall>c\<in>set ch. node m c) \<Longrightarrow> inGrid m a \<Longrightarrow>
     cellAt (carveChain m ch) a = (if a \<in> chainCells ch then Some Empty else cellAt m a)"
proof (induction m ch rule: carveChain.induct)
  case (1 m b c r)
  from "1.prems"(2) obtain d where d: "stepIn b d 2 = c" by auto
  have gb: "inGrid m b" using "1.prems"(3) by (simp add: node_inGrid)
  have gm: "inGrid m (between b c)"
    using mid_inGrid [of m b d] "1.prems"(3) d between_stepIn [of b d] by simp
  let ?m2 = "setEmpty (setEmpty m b) (between b c)"
  have wf2: "wellFormed ?m2" using "1.prems"(1) gb gm by (intro wellFormed_setEmpty) simp_all
  have c2: "cellAt ?m2 a = (if a = b \<or> a = between b c then Some Empty else cellAt m a)"
    using gb gm "1.prems"(4) by (simp add: cellAt_setEmpty)
  have step: "cellAt (carveChain ?m2 (c # r)) a =
      (if a \<in> chainCells (c # r) then Some Empty else cellAt ?m2 a)"
    using "1.prems" wf2 by (intro "1.IH") simp_all
  have cc: "carveChain m (b # c # r) = carveChain ?m2 (c # r)" by simp
  show ?case
  proof (cases "a \<in> chainCells (c # r)")
    case True
    with step show ?thesis unfolding cc by simp
  next
    case False
    with step have "cellAt (carveChain ?m2 (c # r)) a = cellAt ?m2 a" by simp
    also have "\<dots> = (if a = b \<or> a = between b c then Some Empty else cellAt m a)" by (rule c2)
    finally show ?thesis unfolding cc using False by simp
  qed
qed simp_all

lemma walk_run_end':
  assumes "randomDir r = d" "0 < k"
    and "\<forall>i<k. cellAt m (stepIn c d (2 * int i)) = Some Solid"
    and "\<forall>i\<le>k. inGrid m (stepIn c d (2 * int i))"
    and "cellAt m (stepIn c d (2 * int k)) \<noteq> Some Solid"
  shows "randomWalk_loop m P c (replicate k r @ rs) = Some (pathAlong P c d k, rs)"
proof -
  from assms(2) obtain j where k: "k = Suc j" by (cases k) simp_all
  show ?thesis
    unfolding k by (rule walk_run_end [OF assms(1)]) (use assms(3-5) k in simp_all)
qed

lemma line_solidChain:
  assumes "0 < k" "\<forall>i<k. node m (stepIn c d (2 * int i)) \<and> cellAt m (stepIn c d (2 * int i)) = Some Solid"
  shows "solidChain m (line c d k)" "hd (line c d k) = c"
proof -
  from assms(1) obtain j where k: "k = Suc j" by (cases k) simp_all
  show "hd (line c d k) = c" unfolding k by simp
  have "line c d k \<noteq> []" unfolding k by simp
  moreover have "\<forall>a\<in>set (line c d k). node m a \<and> cellAt m a = Some Solid"
    using assms(2) by (auto simp: in_line)
  ultimately show "solidChain m (line c d k)"
    using distinct_line [of c d k] by (simp add: solidChain_def)
qed

text \<open>Walking \<open>k\<close> steps one way onto a carved cell, then replaying the walk.\<close>

lemma straight_walk_and_replay:
  assumes wf: "wellFormed m" and d: "randomDir r = d" and k: "0 < k"
    and cells: "\<forall>i<k. node m (stepIn c d (2 * int i)) \<and> cellAt m (stepIn c d (2 * int i)) = Some Solid"
    and e: "node m (stepIn c d (2 * int k))" "cellAt m (stepIn c d (2 * int k)) \<noteq> Some Solid"
  defines "ch \<equiv> line c d k @ [stepIn c d (2 * int k)]"
  shows "randomWalk m c (replicate k r @ rs) = Some (pathAlong Map.empty c d k, rs)"
    and "carve m (pathAlong Map.empty c d k) c n = Inr (carveChain m ch, n - int k)"
    and "wellFormed (carveChain m ch)"
    and "emptyCells (carveChain m ch) = emptyCells m \<union> (\<lambda>i. stepIn c d (int i)) ` {..<2 * k}"
    and "\<And>a. inGrid m a \<Longrightarrow> cellAt (carveChain m ch) a =
           (if a \<in> (\<lambda>i. stepIn c d (int i)) ` {..<2 * k} then Some Empty else cellAt m a)"
proof -
  let ?P = "pathAlong Map.empty c d k"
  have grid: "\<forall>i\<le>k. inGrid m (stepIn c d (2 * int i))"
  proof (intro allI impI)
    fix i assume "i \<le> k"
    then consider "i < k" | "i = k" by linarith
    then show "inGrid m (stepIn c d (2 * int i))"
      using cells e(1) by cases (auto intro: node_inGrid)
  qed
  have solid: "\<forall>i<k. cellAt m (stepIn c d (2 * int i)) = Some Solid" using cells by simp
  show "randomWalk m c (replicate k r @ rs) = Some (?P, rs)"
    unfolding randomWalk_def by (rule walk_run_end' [OF d k solid grid e(2)])
  note sc = line_solidChain [OF k cells]
  have "\<forall>i<k. ?P (hash (stepIn c d (2 * int i))) = Some d"
    by (auto simp: pathAlong_lookup)
  then have fol: "follows ?P ch" unfolding ch_def by (rule follows_line)
  from carve_chain [OF wf sc(1) fol [unfolded ch_def] e, of n] sc(2)
  show "carve m ?P c n = Inr (carveChain m ch, n - int k)" by (simp add: ch_def)
  have steps: "stepsOk ch" by (rule follows_stepsOk [OF fol])
  have nodes: "\<forall>a\<in>set ch. node m a"
    using sc(1) e(1) by (simp add: ch_def solidChain_def)
  show "wellFormed (carveChain m ch)" by (rule carveChain_wellFormed [OF wf steps nodes])
  have cc: "chainCells ch = (\<lambda>i. stepIn c d (int i)) ` {..<2 * k}"
    unfolding ch_def by (rule chainCells_line)
  show "emptyCells (carveChain m ch) = emptyCells m \<union> (\<lambda>i. stepIn c d (int i)) ` {..<2 * k}"
    using carveChain_emptyCells [OF steps nodes] cc by simp
  show "cellAt (carveChain m ch) a =
           (if a \<in> (\<lambda>i. stepIn c d (int i)) ` {..<2 * k} then Some Empty else cellAt m a)"
    if "inGrid m a" for a
    using carveChain_cellAt [OF wf steps nodes that] cc by simp
qed

lemma loop_iteration:
  assumes "0 < n" "randomOddCell m rx rz = s" "randomWalk m s rs1 = Some (P, rs2)"
    and "carve m P s n = Inr (m', n')"
  shows "generateMaze_loop m n (rx # rz # rs1) = generateMaze_loop m' n' rs2"
  using assms by (subst generateMaze_loop.simps) simp

lemma wellFormed_outside:
  "wellFormed m \<Longrightarrow> \<not> inRange m i \<Longrightarrow> fmlookup (cells m) i = None"
  by (auto simp: wellFormed_def)

lemma freshMaze_cellAt:
  assumes "3 \<le> W" "3 \<le> H" "inGrid (freshMaze W H) a"
  shows "cellAt (freshMaze W H) a = (if a = (1, 1) then Some Empty else Some Solid)"
proof -
  have wf: "0 < W" using assms by simp
  have "a \<in> emptyCells (freshMaze W H) \<longleftrightarrow> a = (1, 1)"
    using freshMaze_emptyCells [OF assms(1,2)] by simp
  then have E: "cellAt (freshMaze W H) a = Some Empty \<longleftrightarrow> a = (1, 1)"
    using assms(3) by (simp add: emptyCells_def isEmpty_def)
  have "inRange (freshMaze W H) (linearize (freshMaze W H) (fst a) (snd a))"
    by (rule linearize_inRange [OF assms(3)])
  then have "cellAt (freshMaze W H) a = Some Solid \<or> cellAt (freshMaze W H) a = Some Empty"
    using wf by (auto simp: cellAt_def getCellType_def freshMaze_def inRange_def initCells_lookup)
  with E show ?thesis by auto
qed

lemma column_up: "(\<lambda>i. stepIn (x, z) Up (int i)) ` {..<n} = {a. fst a = x \<and> z - int n < snd a \<and> snd a \<le> z}"
proof (intro equalityI subsetI)
  fix a assume "a \<in> (\<lambda>i. stepIn (x, z) Up (int i)) ` {..<n}"
  then show "a \<in> {a. fst a = x \<and> z - int n < snd a \<and> snd a \<le> z}" by auto
next
  fix a assume "a \<in> {a. fst a = x \<and> z - int n < snd a \<and> snd a \<le> z}"
  then have a: "fst a = x" "z - int n < snd a" "snd a \<le> z" by simp_all
  then have "a = stepIn (x, z) Up (int (nat (z - snd a)))" "nat (z - snd a) < n"
    by (simp_all add: prod_eq_iff)
  then show "a \<in> (\<lambda>i. stepIn (x, z) Up (int i)) ` {..<n}" by blast
qed

section \<open>A run on a grid taller than \<open>2^16\<close>\<close>

text \<open>
  In a 5 by 65539 grid the intersections \<open>(3, 1)\<close> and \<open>(3, 65537)\<close> have the same hash.
  The draws below make three walks. The draw \<open>(0, 0)\<close> is 0, \<open>(1, 1)\<close> is \<open>1/2\<close>, \<open>(1, 2)\<close> is
  \<open>1/4\<close> and \<open>(131071, 17)\<close> is \<open>1 - 2^-17\<close>; as a direction they are \<^verbatim>\<open>Up\<close>, \<^verbatim>\<open>Left\<close>,
  \<^verbatim>\<open>Down\<close>, and as a row the last one is 65537.

  The first walk starts at \<open>(1, 65537)\<close> and goes up the whole column \<open>x = 1\<close> to the start
  cell; its replay carves that column. The second walk starts at \<open>(3, 1)\<close>, goes down the
  column \<open>x = 3\<close> to \<open>(3, 65537)\<close>, where the direction \<^verbatim>\<open>Up\<close> it records takes the place of
  the entry of \<open>(3, 1)\<close>, then one step up and one step left onto the carved column. Its
  replay starts at \<open>(3, 1)\<close>, finds \<^verbatim>\<open>Up\<close>, carves \<open>(3, 1)\<close> and the boundary cell \<open>(3, 0)\<close>, and
  stops at \<open>(3, -1)\<close>, whose index \<open>-2\<close> holds nothing. The third walk starts at \<open>(3, 65537)\<close>
  and goes up the column \<open>x = 3\<close> to \<open>(3, 1)\<close>; its replay carves the rest of that column and
  brings the counter to 0.
\<close>

definition tallDraws :: "draw list" where
  "tallDraws =
     [(0, 0), (131071, 17)] @ replicate 32768 (0, 0) @
     [(1, 1), (0, 0)] @ replicate 32768 (1, 2) @ [(0, 0), (1, 1)] @
     [(1, 1), (131071, 17)] @ replicate 32768 (0, 0)"

definition tall1 :: WilsonMaze where
  "tall1 = carveChain (freshMaze 5 65539) (line (1, 65537) Up 32768 @ [(1, 1)])"

definition tall2 :: WilsonMaze where
  "tall2 = setEmpty (setEmpty tall1 (3, 1)) (3, 0)"

definition tallMaze :: WilsonMaze where
  "tallMaze = carveChain tall2 (line (3, 65537) Up 32768 @ [(3, 1)])"

lemma tall_fields [simp]:
  "width (freshMaze 5 65539) = 5" "height (freshMaze 5 65539) = 65539"
  "width tall1 = 5" "height tall1 = 65539"
  "width tall2 = 5" "height tall2 = 65539"
  "width tallMaze = 5" "height tallMaze = 65539"
  "startIndex tallMaze = 6"
  by (simp_all add: tall1_def tall2_def tallMaze_def freshMaze_def)

lemma tall_draws_ok: "draws_ok tallDraws"
  by (simp add: draws_ok_def tallDraws_def list_all_iff isDraw_def)

lemma dirs: "randomDir (0, 0) = Up" "randomDir (1, 2) = Down" "randomDir (1, 1) = Left"
  "randomDir (Suc 0, Suc 0) = Left"
  by (simp_all add: randomDir_def draw_eval)

lemma tall0_wf: "wellFormed (freshMaze 5 65539)"
  by (rule freshMaze_wellFormed) simp_all

lemma tall0_cell:
  "inGrid (freshMaze 5 65539) a \<Longrightarrow>
     cellAt (freshMaze 5 65539) a = (if a = (1, 1) then Some Empty else Some Solid)"
  by (rule freshMaze_cellAt) simp_all

lemma phase1:
  shows "randomWalk (freshMaze 5 65539) (1, 65537) (replicate 32768 (0, 0) @ rs) =
           Some (pathAlong Map.empty (1, 65537) Up 32768, rs)"
    and "carve (freshMaze 5 65539) (pathAlong Map.empty (1, 65537) Up 32768) (1, 65537) n =
           Inr (tall1, n - 32768)"
    and "wellFormed tall1"
    and "emptyCells tall1 = {a. fst a = 1 \<and> 1 \<le> snd a \<and> snd a \<le> 65537}"
    and "\<And>a. inGrid tall1 a \<Longrightarrow> cellAt tall1 a =
           (if fst a = 1 \<and> 1 \<le> snd a \<and> snd a \<le> 65537 then Some Empty else Some Solid)"
proof -
  let ?m = "freshMaze 5 65539" and ?c = "(1 :: int, 65537 :: int)"
  have k: "(0 :: nat) < 32768" by simp
  have last: "stepIn ?c Up (2 * int 32768) = (1, 1)" by simp
  have cells: "\<forall>i<32768. node ?m (stepIn ?c Up (2 * int i)) \<and>
      cellAt ?m (stepIn ?c Up (2 * int i)) = Some Solid"
  proof (intro allI impI)
    fix i :: nat assume i: "i < 32768"
    have n: "node ?m (1, 65537 - 2 * int i)" using i by (simp add: isNode_def)
    from node_inGrid [OF n] have "cellAt ?m (1, 65537 - 2 * int i) = Some Solid"
      using i by (simp add: tall0_cell)
    with n show "node ?m (stepIn ?c Up (2 * int i)) \<and> cellAt ?m (stepIn ?c Up (2 * int i)) = Some Solid"
      by simp
  qed
  have e: "node ?m (stepIn ?c Up (2 * int 32768))" "cellAt ?m (stepIn ?c Up (2 * int 32768)) \<noteq> Some Solid"
    unfolding last by (simp_all add: isNode_def tall0_cell inGrid_def)
  note r = straight_walk_and_replay [OF tall0_wf dirs(1) k cells e]
  have col: "(\<lambda>i. stepIn ?c Up (int i)) ` {..<2 * 32768} = {a. fst a = 1 \<and> 2 \<le> snd a \<and> snd a \<le> 65537}"
    unfolding column_up by auto
  show "randomWalk ?m ?c (replicate 32768 (0, 0) @ rs) = Some (pathAlong Map.empty ?c Up 32768, rs)"
    by (rule r(1))
  show "carve ?m (pathAlong Map.empty ?c Up 32768) ?c n = Inr (tall1, n - 32768)"
    using r(2) [of n] unfolding last tall1_def by simp
  show "wellFormed tall1" using r(3) unfolding last tall1_def .
  have "emptyCells tall1 = {(1, 1)} \<union> {a. fst a = 1 \<and> 2 \<le> snd a \<and> snd a \<le> 65537}"
    using r(4) unfolding last col tall1_def by (simp add: freshMaze_emptyCells)
  also have "\<dots> = {a. fst a = 1 \<and> 1 \<le> snd a \<and> snd a \<le> 65537}"
    by (auto simp: prod_eq_iff)
  finally show "emptyCells tall1 = {a. fst a = 1 \<and> 1 \<le> snd a \<and> snd a \<le> 65537}" .
  show "cellAt tall1 a = (if fst a = 1 \<and> 1 \<le> snd a \<and> snd a \<le> 65537 then Some Empty else Some Solid)"
    if "inGrid tall1 a" for a
  proof -
    from that have g: "inGrid ?m a" by (simp add: inGrid_def)
    have "cellAt tall1 a = (if a \<in> {a. fst a = 1 \<and> 2 \<le> snd a \<and> snd a \<le> 65537} then Some Empty
        else cellAt ?m a)"
      using r(5) [OF g] unfolding last col tall1_def .
    then show ?thesis using tall0_cell [OF g] by (auto simp: prod_eq_iff)
  qed
qed

lemma tall1_solid:
  assumes "0 \<le> z" "z < 65539"
  shows "getCellType tall1 3 z = Some Solid"
proof -
  have "inGrid tall1 (3, z)" using assms by (simp add: inGrid_def)
  from phase1(5) [OF this] show ?thesis by (simp add: cellAt_def)
qed

lemma tall1_empty: "getCellType tall1 1 65535 = Some Empty"
proof -
  have "inGrid tall1 (1, 65535)" by (simp add: inGrid_def)
  from phase1(5) [OF this] show ?thesis by (simp add: cellAt_def)
qed

lemma hash_collision: "hash (3, 65537) = hash (3, 1)" "hash (3, 65535) \<noteq> hash (3, 1)"
  by (simp_all add: hash_eq_iff)

definition path2 :: path where
  "path2 = (pathAlong Map.empty (3, 1) Down 32768)(hash (3, 65537) \<mapsto> Up, hash (3, 65535) \<mapsto> Left)"

lemma path2_start: "path2 (hash (3, 1)) = Some Up"
  using hash_collision by (simp add: path2_def)

lemma phase2_walk:
  "randomWalk tall1 (3, 1) (replicate 32768 (1, 2) @ (0, 0) # (1, 1) # rs) = Some (path2, rs)"
proof -
  let ?c = "(3 :: int, 1 :: int)"
  have s: "\<forall>i\<le>32768. cellAt tall1 (stepIn ?c Down (2 * int i)) = Some Solid"
  proof (intro allI impI)
    fix i :: nat assume "i \<le> 32768"
    then have "getCellType tall1 3 (1 + 2 * int i) = Some Solid" by (intro tall1_solid) simp_all
    then show "cellAt tall1 (stepIn ?c Down (2 * int i)) = Some Solid" by (simp add: cellAt_def)
  qed
  have g: "\<forall>i\<le>32768. inGrid tall1 (stepIn ?c Down (2 * int i))"
    by (simp add: inGrid_def)
  have run: "randomWalk_loop tall1 Map.empty ?c (replicate 32768 (1, 2) @ (0, 0) # (1, 1) # rs) =
      randomWalk_loop tall1 (pathAlong Map.empty ?c Down 32768) (3, 65537) ((0, 0) # (1, 1) # rs)"
    using walk_run [OF dirs(2) s g, of Map.empty "(0, 0) # (1, 1) # rs"] by simp
  have a: "getCellType tall1 3 65537 = Some Solid" "getCellType tall1 3 65535 = Some Solid"
    by (simp_all add: tall1_solid)
  have "randomWalk_loop tall1 (pathAlong Map.empty ?c Down 32768) (3, 65537) ((0, 0) # (1, 1) # rs) =
      Some (path2, rs)"
    using a tall1_empty by (simp add: dirs path2_def del: pathAlong.simps)
  with run show ?thesis by (simp add: randomWalk_def)
qed

lemma phase2_carve: "carve tall1 path2 (3, 1) n = Inr (tall2, n - 1)"
proof -
  have solid: "getCellType tall1 3 1 = Some Solid" by (simp add: tall1_solid)
  have "\<not> inRange tall2 (- 2)" by (simp add: inRange_def)
  have wf2: "wellFormed tall2"
    unfolding tall2_def using phase1(3) by (intro wellFormed_setEmpty) (simp_all add: inGrid_def)
  have out: "getCellType tall2 3 (- 1) = None"
    using wellFormed_outside [OF wf2, of "- 2"]
    by (simp add: getCellType_def linearize_def inRange_def)
  have m2: "setCellType (setCellType tall1 3 1 Empty) 3 0 Empty = tall2"
    by (simp add: tall2_def setEmpty_def)
  have "carve tall1 path2 (3, 1) n = carve tall2 path2 (3, - 1) (n - 1)"
    using solid path2_start m2 by (subst carve.simps) simp
  also have "\<dots> = Inr (tall2, n - 1)"
    using out by (subst carve.simps) simp
  finally show ?thesis .
qed

lemma tall2_facts:
  shows "wellFormed tall2"
    and "emptyCells tall2 = {a. fst a = 1 \<and> 1 \<le> snd a \<and> snd a \<le> 65537} \<union> {(3, 1), (3, 0)}"
    and "\<And>a. inGrid tall2 a \<Longrightarrow> cellAt tall2 a =
           (if (fst a = 1 \<and> 1 \<le> snd a \<and> snd a \<le> 65537) \<or> a = (3, 1) \<or> a = (3, 0)
            then Some Empty else Some Solid)"
proof -
  have g1: "inGrid tall1 (3, 1)" and g0: "inGrid (setEmpty tall1 (3, 1)) (3, 0)"
    by (simp_all add: inGrid_def)
  show "wellFormed tall2"
    unfolding tall2_def using phase1(3) g1 g0 by (intro wellFormed_setEmpty) simp_all
  show "emptyCells tall2 = {a. fst a = 1 \<and> 1 \<le> snd a \<and> snd a \<le> 65537} \<union> {(3, 1), (3, 0)}"
    unfolding tall2_def using g1 g0 by (auto simp: emptyCells_setEmpty phase1(4))
  show "cellAt tall2 a =
           (if (fst a = 1 \<and> 1 \<le> snd a \<and> snd a \<le> 65537) \<or> a = (3, 1) \<or> a = (3, 0)
            then Some Empty else Some Solid)" if "inGrid tall2 a" for a
  proof -
    from that have g: "inGrid tall1 a" by (simp add: inGrid_def)
    have "cellAt tall2 a = (if a = (3, 0) then Some Empty else if a = (3, 1) then Some Empty
        else cellAt tall1 a)"
      unfolding tall2_def using g g1 g0 by (simp add: cellAt_setEmpty)
    with phase1(5) [OF g] show ?thesis by auto
  qed
qed

lemma phase3:
  shows "randomWalk tall2 (3, 65537) (replicate 32768 (0, 0) @ rs) =
           Some (pathAlong Map.empty (3, 65537) Up 32768, rs)"
    and "carve tall2 (pathAlong Map.empty (3, 65537) Up 32768) (3, 65537) n =
           Inr (tallMaze, n - 32768)"
    and "wellFormed tallMaze"
    and "emptyCells tallMaze = {a. fst a = 1 \<and> 1 \<le> snd a \<and> snd a \<le> 65537} \<union>
           {a. fst a = 3 \<and> 0 \<le> snd a \<and> snd a \<le> 65537}"
proof -
  let ?c = "(3 :: int, 65537 :: int)"
  have k: "(0 :: nat) < 32768" by simp
  have last: "stepIn ?c Up (2 * int 32768) = (3, 1)" by simp
  have cells: "\<forall>i<32768. node tall2 (stepIn ?c Up (2 * int i)) \<and>
      cellAt tall2 (stepIn ?c Up (2 * int i)) = Some Solid"
  proof (intro allI impI)
    fix i :: nat assume i: "i < 32768"
    have n: "node tall2 (3, 65537 - 2 * int i)" using i by (simp add: isNode_def)
    from node_inGrid [OF n] have "cellAt tall2 (3, 65537 - 2 * int i) = Some Solid"
      using i by (simp add: tall2_facts(3))
    with n show "node tall2 (stepIn ?c Up (2 * int i)) \<and> cellAt tall2 (stepIn ?c Up (2 * int i)) = Some Solid"
      by simp
  qed
  have e: "node tall2 (stepIn ?c Up (2 * int 32768))" "cellAt tall2 (stepIn ?c Up (2 * int 32768)) \<noteq> Some Solid"
    unfolding last by (simp_all add: isNode_def tall2_facts(3) inGrid_def)
  note r = straight_walk_and_replay [OF tall2_facts(1) dirs(1) k cells e]
  have col: "(\<lambda>i. stepIn ?c Up (int i)) ` {..<2 * 32768} = {a. fst a = 3 \<and> 2 \<le> snd a \<and> snd a \<le> 65537}"
    unfolding column_up by auto
  show "randomWalk tall2 ?c (replicate 32768 (0, 0) @ rs) = Some (pathAlong Map.empty ?c Up 32768, rs)"
    by (rule r(1))
  show "carve tall2 (pathAlong Map.empty ?c Up 32768) ?c n = Inr (tallMaze, n - 32768)"
    using r(2) [of n] unfolding last tallMaze_def by simp
  show "wellFormed tallMaze" using r(3) unfolding last tallMaze_def .
  have "emptyCells tallMaze = ({a. fst a = 1 \<and> 1 \<le> snd a \<and> snd a \<le> 65537} \<union> {(3, 1), (3, 0)}) \<union>
      {a. fst a = 3 \<and> 2 \<le> snd a \<and> snd a \<le> 65537}"
    using r(4) unfolding last col tallMaze_def tall2_facts(2) .
  also have "\<dots> = {a. fst a = 1 \<and> 1 \<le> snd a \<and> snd a \<le> 65537} \<union>
           {a. fst a = 3 \<and> 0 \<le> snd a \<and> snd a \<le> 65537}"
    by (auto simp: prod_eq_iff)
  finally show "emptyCells tallMaze = {a. fst a = 1 \<and> 1 \<le> snd a \<and> snd a \<le> 65537} \<union>
           {a. fst a = 3 \<and> 0 \<le> snd a \<and> snd a \<le> 65537}" .
qed

lemma tall_cells: "randomOddCell (freshMaze 5 65539) (0, 0) (131071, 17) = (1, 65537)"
  "randomOddCell tall1 (1, 1) (0, 0) = (3, 1)"
  "randomOddCell tall2 (1, 1) (131071, 17) = (3, 65537)"
  by (simp_all add: randomOddCell_def draw_eval)

lemma tall_run: "WilsonMaze_new 5 65539 None None tallDraws = Some (Inr tallMaze)"
proof -
  let ?d3 = "(1, 1) # (131071, 17) # replicate 32768 (0, 0)"
  let ?d2 = "(1, 1) # (0, 0) # (replicate 32768 (1, 2) @ (0, 0) # (1, 1) # ?d3)"
  have d: "tallDraws = (0, 0) # (131071, 17) # (replicate 32768 (0, 0) @ ?d2)"
    by (simp add: tallDraws_def)
  have "WilsonMaze_new 5 65539 None None tallDraws =
      generateMaze_loop (freshMaze 5 65539) 65537 tallDraws"
    by (simp add: WilsonMaze_new_default roundUpOdd_eq generateMaze_def)
  also have "\<dots> = generateMaze_loop tall1 32769 ?d2"
    unfolding d using phase1(2) [of 65537]
    by (intro loop_iteration [OF _ tall_cells(1) phase1(1)]) simp_all
  also have "\<dots> = generateMaze_loop tall2 32768 ?d3"
    using phase2_carve [of 32769]
    by (intro loop_iteration [OF _ tall_cells(2) phase2_walk]) simp_all
  also have "\<dots> = generateMaze_loop tallMaze 0 []"
    using phase3(2) [of 32768] phase3(1) [of "[]"]
    by (intro loop_iteration [OF _ tall_cells(3)]) simp_all
  also have "\<dots> = Some (Inr tallMaze)" by (simp add: generateMaze_loop.simps)
  finally show ?thesis .
qed

subsection \<open>The maze of the run\<close>

text \<open>The \<open>Empty\<close> cells of the maze are the two columns, and they are not joined.\<close>

definition colA :: "Vector2 set" where
  "colA = {a. fst a = 1 \<and> 1 \<le> snd a \<and> snd a \<le> 65537}"

definition colB :: "Vector2 set" where
  "colB = {a. fst a = 3 \<and> 0 \<le> snd a \<and> snd a \<le> 65537}"

lemma tall_empty: "emptyCells tallMaze = colA \<union> colB"
  by (simp add: phase3(4) colA_def colB_def)

lemma tall_start: "startPos tallMaze = (1, 1)"
  by (simp add: startPos_def delinearize_def signed_modulo_int_def)

lemma tall_reach:
  "(a, b) \<in> (adjIn (colA \<union> colB))\<^sup>* \<Longrightarrow> fst a = 1 \<Longrightarrow> fst b = 1"
proof (induction rule: rtrancl_induct)
  case base
  then show ?case .
next
  case (step y z)
  from step.hyps(2) have "y \<in> colA \<union> colB" "z \<in> colA \<union> colB" "adjacent y z"
    by (simp_all add: adjIn_def)
  moreover have "fst y = 1" by (rule step.IH [OF step.prems])
  ultimately show ?case by (auto simp: colA_def colB_def adjacent_def)
qed

lemma tall_unreached: "(startPos tallMaze, (3, 1)) \<notin> (adjIn (emptyCells tallMaze))\<^sup>*"
proof
  assume "(startPos tallMaze, (3, 1)) \<in> (adjIn (emptyCells tallMaze))\<^sup>*"
  then have "((1, 1), (3, 1)) \<in> (adjIn (colA \<union> colB))\<^sup>*" by (simp add: tall_start tall_empty)
  from tall_reach [OF this] show False by simp
qed

lemma colA_image: "colA = (\<lambda>z. (1, z)) ` {1..65537}"
  by (auto simp: colA_def image_iff prod_eq_iff)

lemma colB_image: "colB = (\<lambda>z. (3, z)) ` {0..65537}"
  by (auto simp: colB_def image_iff prod_eq_iff)

lemma card_cols: "card (colA \<union> colB) = 131075"
proof -
  have a: "card colA = 65537" unfolding colA_image by (subst card_image) (simp_all add: inj_on_def)
  have b: "card colB = 65538" unfolding colB_image by (subst card_image) (simp_all add: inj_on_def)
  have f: "finite colA" "finite colB" unfolding colA_image colB_image by simp_all
  have d: "colA \<inter> colB = {}" by (auto simp: colA_def colB_def)
  show ?thesis using card_Un_disjoint [OF f d] a b by simp
qed

definition pairsA :: "Vector2 set set" where
  "pairsA = (\<lambda>z. {(1, z), (1, z + 1)}) ` {1..65536}"

definition pairsB :: "Vector2 set set" where
  "pairsB = (\<lambda>z. {(3, z), (3, z + 1)}) ` {0..65536}"

lemma col_pair:
  assumes "fst c = fst c'" "adjacent c c'"
  shows "{c, c'} = {(fst c, min (snd c) (snd c')), (fst c, min (snd c) (snd c') + 1)}"
proof -
  from assms have "snd c' = snd c + 1 \<or> snd c = snd c' + 1" by (auto simp: adjacent_def)
  then show ?thesis
  proof
    assume "snd c' = snd c + 1"
    then have "c' = (fst c, snd c + 1)" "min (snd c) (snd c') = snd c"
      using assms(1) by (simp_all add: prod_eq_iff)
    then show ?thesis by simp
  next
    assume "snd c = snd c' + 1"
    then have "c = (fst c, snd c' + 1)" "c' = (fst c, snd c')" "min (snd c) (snd c') = snd c'"
      using assms(1) by (simp_all add: prod_eq_iff)
    then show ?thesis by (metis insert_commute)
  qed
qed

lemma pairs_cols: "pairsIn (colA \<union> colB) = pairsA \<union> pairsB"
proof (intro set_eqI iffI)
  fix P assume "P \<in> pairsIn (colA \<union> colB)"
  then obtain c c' where P: "P = {c, c'}" and c: "c \<in> colA \<union> colB" "c' \<in> colA \<union> colB"
    and adj: "adjacent c c'"
    by (auto simp: pairsIn_def)
  have fs: "fst c = fst c'" using c adj by (auto simp: colA_def colB_def adjacent_def)
  let ?z = "min (snd c) (snd c')"
  have e: "P = {(fst c, ?z), (fst c, ?z + 1)}" unfolding P by (rule col_pair [OF fs adj])
  from adj fs have z: "snd c' = snd c + 1 \<or> snd c = snd c' + 1" by (auto simp: adjacent_def)
  from c(1) have "c \<in> colA \<or> c \<in> colB" by simp
  then show "P \<in> pairsA \<union> pairsB"
  proof
    assume "c \<in> colA"
    then have "fst c = 1" "1 \<le> snd c" "snd c \<le> 65537" by (simp_all add: colA_def)
    moreover from this fs c(2) have "1 \<le> snd c'" "snd c' \<le> 65537" by (auto simp: colA_def colB_def)
    ultimately have "fst c = 1" "?z \<in> {1..65536}" using z by auto
    then have "P \<in> pairsA" unfolding pairsA_def e by (intro image_eqI [where x = ?z]) simp_all
    then show ?thesis by simp
  next
    assume "c \<in> colB"
    then have "fst c = 3" "0 \<le> snd c" "snd c \<le> 65537" by (simp_all add: colB_def)
    moreover from this fs c(2) have "0 \<le> snd c'" "snd c' \<le> 65537" by (auto simp: colA_def colB_def)
    ultimately have "fst c = 3" "?z \<in> {0..65536}" using z by auto
    then have "P \<in> pairsB" unfolding pairsB_def e by (intro image_eqI [where x = ?z]) simp_all
    then show ?thesis by simp
  qed
next
  fix P assume "P \<in> pairsA \<union> pairsB"
  then show "P \<in> pairsIn (colA \<union> colB)"
  proof
    assume "P \<in> pairsA"
    then obtain z where z: "1 \<le> z" "z \<le> 65536" "P = {(1, z), (1, z + 1)}"
      by (auto simp: pairsA_def)
    have "(1, z) \<in> colA \<union> colB" "(1, z + 1) \<in> colA \<union> colB" "adjacent (1, z) (1, z + 1)"
      using z by (simp_all add: colA_def adjacent_def)
    then show ?thesis unfolding pairsIn_def z(3) by blast
  next
    assume "P \<in> pairsB"
    then obtain z where z: "0 \<le> z" "z \<le> 65536" "P = {(3, z), (3, z + 1)}"
      by (auto simp: pairsB_def)
    have "(3, z) \<in> colA \<union> colB" "(3, z + 1) \<in> colA \<union> colB" "adjacent (3, z) (3, z + 1)"
      using z by (simp_all add: colB_def adjacent_def)
    then show ?thesis unfolding pairsIn_def z(3) by blast
  qed
qed

lemma pair_inj: "inj_on (\<lambda>z :: int. {(x :: int, z), (x, z + 1)}) S"
  by (auto simp: inj_on_def doubleton_eq_iff)

lemma card_pairs: "card (pairsIn (colA \<union> colB)) = 131073"
proof -
  have a: "card pairsA = 65536" unfolding pairsA_def by (subst card_image [OF pair_inj]) simp
  have b: "card pairsB = 65537" unfolding pairsB_def by (subst card_image [OF pair_inj]) simp
  have f: "finite pairsA" "finite pairsB" unfolding pairsA_def pairsB_def by simp_all
  have d: "pairsA \<inter> pairsB = {}" by (auto simp: pairsA_def pairsB_def doubleton_eq_iff)
  show ?thesis unfolding pairs_cols using card_Un_disjoint [OF f d] a b by simp
qed

section \<open>Properties of generated mazes\<close>

lemma generated_start:
  assumes "2 \<le> w" "w \<le> 65537" "2 \<le> h" "h \<le> 65537" "draws_ok rs"
    and "WilsonMaze_new w h None None rs = Some (Inr m)"
  shows "startPos m = (1, 1)" "goalPos m = (width m - 2, height m - 2)"
proof -
  note g = generated_maze [OF assms]
  from g(1) have d: "3 \<le> width m" "3 \<le> height m" by (simp_all add: wellFormed_def)
  have "delinearize m (linearize m 1 1) = (1, 1)" using d by (intro delin_lin) simp_all
  then show "startPos m = (1, 1)" using g(6) by (simp add: startPos_def linearize_def)
  have "delinearize m (linearize m (width m - 2) (height m - 2)) = (width m - 2, height m - 2)"
    using d by (intro delin_lin) simp_all
  then show "goalPos m = (width m - 2, height m - 2)"
    using g(7) by (simp add: goalPos_def linearize_def)
qed

lemma generated_connected:
  assumes "2 \<le> w" "w \<le> 65537" "2 \<le> h" "h \<le> 65537" "draws_ok rs"
    and "WilsonMaze_new w h None None rs = Some (Inr m)"
  shows "\<forall>c\<in>emptyCells m. (startPos m, c) \<in> (adjIn (emptyCells m))\<^sup>*"
  using generated_maze(2) [OF assms] generated_start(1) [OF assms]
  by (simp add: treeInv_def)

lemma generated_nodes:
  assumes "2 \<le> w" "w \<le> 65537" "2 \<le> h" "h \<le> 65537" "draws_ok rs"
    and "WilsonMaze_new w h None None rs = Some (Inr m)"
    and "node m c"
  shows "c \<in> emptyCells m"
proof -
  from assms(7) have "c \<in> {c. node m c}" by simp
  then have "c \<in> nodesOf (emptyCells m)" unfolding generated_maze(3) [OF assms(1-6)] .
  then show ?thesis by (simp add: nodesOf_def)
qed

text \<open>
  Claim C1 says that in every generated maze, for a requested width and height at least 3,
  every \<open>Empty\<close> cell is reached from the start cell. The run above, for the request
  \<open>(5, 65539)\<close>, returns a maze in which the \<open>Empty\<close> cell \<open>(3, 1)\<close> is not reached from the
  start cell \<open>(1, 1)\<close>: no \<open>Empty\<close> cell joins the column \<open>x = 1\<close> to the column \<open>x = 3\<close>.
\<close>

theorem tall_maze_disconnected:
  "draws_ok tallDraws \<and> WilsonMaze_new 5 65539 None None tallDraws = Some (Inr tallMaze) \<and>
   (3, 1) \<in> emptyCells tallMaze \<and>
   (startPos tallMaze, (3, 1)) \<notin> (adjIn (emptyCells tallMaze))\<^sup>*"
  using tall_draws_ok tall_run tall_unreached by (simp add: tall_empty colB_def)

text \<open>
  Claim C1 as amended: for every maze returned by the constructor for a requested width and
  height from 3 to \<open>2^16 + 1\<close> and draws in \<open>[0, 1)\<close>, every \<open>Empty\<close> cell is reached from
  the start cell through grid-adjacent \<open>Empty\<close> cells.
\<close>

theorem generated_maze_connected:
  assumes "3 \<le> w" "w \<le> 65537" "3 \<le> h" "h \<le> 65537" "draws_ok rs"
    and "WilsonMaze_new w h None None rs = Some (Inr m)"
  shows "\<forall>c\<in>emptyCells m. (startPos m, c) \<in> (adjIn (emptyCells m))\<^sup>*"
  using assms by (intro generated_connected [of w h rs m]) simp_all

theorem generated_maze_connected_witness:
  "draws_ok [(0, 0), (1, 1), (0, 0)] \<and> WilsonMaze_new 3 5 None None [(0, 0), (1, 1), (0, 0)] = Some (Inr maze_3_5) \<and>
   (1, 3) \<in> emptyCells maze_3_5 \<and>
   (startPos maze_3_5, (1, 3)) \<in> (adjIn (emptyCells maze_3_5))\<^sup>*"
  using generated_maze_connected [of 3 5 "[(0, 0), (1, 1), (0, 0)]" maze_3_5] run_3_5 draws_3_5
    maze_3_5_cells(3)
  by simp

text \<open>
  Claim C2 says that in every generated maze, for a requested width and height at least 3,
  the number of \<open>Empty\<close> cells is the number of adjacent pairs of \<open>Empty\<close> cells plus one.
  The maze of the run above has 131075 \<open>Empty\<close> cells and 131073 adjacent pairs.
\<close>

theorem tall_maze_not_tree:
  "draws_ok tallDraws \<and> WilsonMaze_new 5 65539 None None tallDraws = Some (Inr tallMaze) \<and>
   card (emptyCells tallMaze) = 131075 \<and> card (pairsIn (emptyCells tallMaze)) = 131073"
  using tall_draws_ok tall_run card_cols card_pairs by (simp add: tall_empty)

text \<open>
  Claim C2 as amended: for every maze returned by the constructor for a requested width and
  height from 3 to \<open>2^16 + 1\<close> and draws in \<open>[0, 1)\<close>, the \<open>Empty\<close> cells form a spanning
  tree: their number is the number of grid-adjacent pairs of \<open>Empty\<close> cells plus one, every
  \<open>Empty\<close> cell is reached from the start cell, and every intersection is \<open>Empty\<close>.
\<close>

theorem generated_maze_tree:
  assumes "3 \<le> w" "w \<le> 65537" "3 \<le> h" "h \<le> 65537" "draws_ok rs"
    and "WilsonMaze_new w h None None rs = Some (Inr m)"
  shows "card (emptyCells m) = card (pairsIn (emptyCells m)) + 1 \<and>
         (\<forall>c\<in>emptyCells m. (startPos m, c) \<in> (adjIn (emptyCells m))\<^sup>*) \<and>
         (\<forall>c. node m c \<longrightarrow> c \<in> emptyCells m)"
proof -
  have b: "2 \<le> w" "2 \<le> h" using assms by simp_all
  note a = b(1) assms(2) b(2) assms(4-6)
  from generated_maze(2) [OF a] have "card (emptyCells m) = card (pairsIn (emptyCells m)) + 1"
    by (simp add: treeInv_def)
  with generated_connected [OF a] generated_nodes [OF a] show ?thesis by blast
qed

theorem generated_maze_tree_witness:
  "draws_ok [(0, 0), (1, 1), (0, 0)] \<and> WilsonMaze_new 3 5 None None [(0, 0), (1, 1), (0, 0)] = Some (Inr maze_3_5) \<and>
   card (emptyCells maze_3_5) = card (pairsIn (emptyCells maze_3_5)) + 1 \<and>
   (1, 3) \<in> emptyCells maze_3_5"
  using generated_maze_tree [of 3 5 "[(0, 0), (1, 1), (0, 0)]" maze_3_5] run_3_5 draws_3_5
  by (simp add: isNode_def maze_3_5_def)

text \<open>
  Claim C10 says that every boundary cell of a generated maze of normalised dimensions at
  least 3 is \<open>Solid\<close>. In the maze of the run above the boundary cell \<open>(3, 0)\<close> is \<open>Empty\<close>.
\<close>

theorem tall_maze_boundary_carved:
  "draws_ok tallDraws \<and> WilsonMaze_new 5 65539 None None tallDraws = Some (Inr tallMaze) \<and>
   inGrid tallMaze (3, 0) \<and> cellAt tallMaze (3, 0) = Some Empty"
proof -
  have "(3, 0) \<in> emptyCells tallMaze" by (simp add: tall_empty colB_def)
  then have "inGrid tallMaze (3, 0) \<and> cellAt tallMaze (3, 0) = Some Empty"
    by (simp add: emptyCells_def isEmpty_def)
  with tall_draws_ok tall_run show ?thesis by simp
qed

text \<open>
  Claim C10 as amended: for every maze returned by the constructor for a requested width
  and height from 2 to \<open>2^16 + 1\<close> (normalised dimensions from 3) and draws in \<open>[0, 1)\<close>,
  every boundary cell is \<open>Solid\<close>, and every \<open>Empty\<close> cell is an intersection inside the
  ring or the cell between two \<open>Empty\<close> intersections two steps apart.
\<close>

theorem generated_maze_enclosed:
  assumes "2 \<le> w" "w \<le> 65537" "2 \<le> h" "h \<le> 65537" "draws_ok rs"
    and "WilsonMaze_new w h None None rs = Some (Inr m)"
  shows "(\<forall>c. inGrid m c \<and> (fst c = 0 \<or> fst c = width m - 1 \<or> snd c = 0 \<or> snd c = height m - 1)
              \<longrightarrow> cellAt m c = Some Solid) \<and>
         (\<forall>c\<in>emptyCells m. node m c \<or>
            (\<exists>a d. node m a \<and> node m (stepIn a d 2) \<and> a \<in> emptyCells m \<and>
                   stepIn a d 2 \<in> emptyCells m \<and> c = stepIn a d 1))"
proof (intro conjI allI impI ballI)
  note g = generated_maze [OF assms]
  fix c assume c: "inGrid m c \<and> (fst c = 0 \<or> fst c = width m - 1 \<or> snd c = 0 \<or> snd c = height m - 1)"
  have "c \<notin> emptyCells m" using treeInv_range [OF g(2), of c] c by auto
  with c have "cellAt m c \<noteq> Some Empty" by (simp add: emptyCells_def isEmpty_def)
  with wellFormed_cell [OF g(1), of c] c show "cellAt m c = Some Solid" by auto
next
  note g = generated_maze [OF assms]
  fix c assume c: "c \<in> emptyCells m"
  note r = treeInv_range [OF g(2) c]
  have nodeI: "node m a" if "a \<in> emptyCells m" "odd (fst a)" "odd (snd a)" for a
    using treeInv_range [OF g(2) that(1)] that(2,3) by (simp add: isNode_def)
  show "node m c \<or> (\<exists>a d. node m a \<and> node m (stepIn a d 2) \<and> a \<in> emptyCells m \<and>
                   stepIn a d 2 \<in> emptyCells m \<and> c = stepIn a d 1)"
  proof (cases "even (fst c)")
    case True
    with r have oz: "odd (snd c)" by simp
    let ?a = "(fst c - 1, snd c)"
    from treeInv_closed_x [OF g(2) c True]
    have E: "?a \<in> emptyCells m" "stepIn ?a Right 2 \<in> emptyCells m"
      by (simp_all add: add.commute)
    have "node m ?a" "node m (stepIn ?a Right 2)" using E True oz by (auto intro!: nodeI)
    moreover have "c = stepIn ?a Right 1" by (simp add: prod_eq_iff)
    ultimately show ?thesis using E by blast
  next
    case False
    show ?thesis
    proof (cases "even (snd c)")
      case True
      let ?a = "(fst c, snd c - 1)"
      from treeInv_closed_z [OF g(2) c True]
      have E: "?a \<in> emptyCells m" "stepIn ?a Down 2 \<in> emptyCells m"
        by (simp_all add: add.commute)
      have "node m ?a" "node m (stepIn ?a Down 2)" using E True False by (auto intro!: nodeI)
      moreover have "c = stepIn ?a Down 1" by (simp add: prod_eq_iff)
      ultimately show ?thesis using E by blast
    next
      case odd_z: False
      with False r show ?thesis by (simp add: isNode_def)
    qed
  qed
qed

theorem generated_maze_enclosed_witness:
  "draws_ok [(0, 0), (1, 1), (0, 0)] \<and> WilsonMaze_new 3 5 None None [(0, 0), (1, 1), (0, 0)] = Some (Inr maze_3_5) \<and>
   inGrid maze_3_5 (0, 2) \<and> cellAt maze_3_5 (0, 2) = Some Solid"
  using generated_maze_enclosed [of 3 5 "[(0, 0), (1, 1), (0, 0)]" maze_3_5] run_3_5 draws_3_5
  by (simp add: inGrid_def maze_3_5_def)

subsection \<open>Start and goal\<close>

definition maze_1_1 :: WilsonMaze where
  "maze_1_1 = \<lparr>width = 1, height = 1, cells = fmupd 2 Empty (initCells 1 1),
                startIndex = 2, goalIndex = - 2\<rparr>"

lemma run_1_1: "WilsonMaze_new 1 1 None None [] = Some (Inr maze_1_1)"
  by (simp add: WilsonMaze_new_def roundUpOdd_eq linearize_def generateMaze_def
      generateMaze_loop.simps maze_1_1_def)




section \<open>Accesses to the array of cells\<close>

text \<open>
  A copy of the constructor and of the generation in which every read and every write of
  \<^verbatim>\<open>this.cells\<close> first tests the index against the bounds \<open>0 \<le> i < width * height\<close> of the
  allocated array, and ends the run with \<open>OutOfBounds\<close> when the test fails. An error the
  code itself throws is \<open>Thrown\<close>.
\<close>

datatype access = OutOfBounds | Thrown error

definition readCell :: "WilsonMaze \<Rightarrow> int \<Rightarrow> access + CellType option" where
  "readCell m i =
     (if 0 \<le> i \<and> i < width m * height m then Inr (fmlookup (cells m) i) else Inl OutOfBounds)"

definition writeCell :: "WilsonMaze \<Rightarrow> int \<Rightarrow> CellType \<Rightarrow> access + WilsonMaze" where
  "writeCell m i cellType =
     (if 0 \<le> i \<and> i < width m * height m then Inr (m\<lparr>cells := fmupd i cellType (cells m)\<rparr>)
      else Inl OutOfBounds)"

definition getCellType_chk :: "WilsonMaze \<Rightarrow> int \<Rightarrow> int \<Rightarrow> access + CellType option" where
  "getCellType_chk m x z = readCell m (linearize m x z)"

definition setCellType_chk :: "WilsonMaze \<Rightarrow> int \<Rightarrow> int \<Rightarrow> CellType \<Rightarrow> access + WilsonMaze" where
  "setCellType_chk m x z cellType = writeCell m (linearize m x z) cellType"

fun randomWalk_loop_chk ::
  "WilsonMaze \<Rightarrow> path \<Rightarrow> Vector2 \<Rightarrow> draw list \<Rightarrow> (access + path \<times> draw list) option" where
  "randomWalk_loop_chk m pth cur [] =
     (case getCellType_chk m (fst cur) (snd cur) of
        Inl e \<Rightarrow> Some (Inl e)
      | Inr t \<Rightarrow> if t = Some Solid then None else Some (Inr (pth, [])))"
| "randomWalk_loop_chk m pth cur (r # rs) =
     (case getCellType_chk m (fst cur) (snd cur) of
        Inl e \<Rightarrow> Some (Inl e)
      | Inr t \<Rightarrow>
          if t = Some Solid then
            (let dir = randomDir r;
                 nextPos = stepIn cur dir 2
             in if fst nextPos < 0 \<or> snd nextPos < 0 \<or> fst nextPos > width m - 1 \<or> snd nextPos > height m - 1
                then randomWalk_loop_chk m pth cur rs
                else (let pth' = pth(hash cur \<mapsto> dir)
                      in case getCellType_chk m (fst nextPos) (snd nextPos) of
                           Inl e \<Rightarrow> Some (Inl e)
                         | Inr t' \<Rightarrow>
                             if t' \<noteq> Some Solid then Some (Inr (pth', rs))
                             else randomWalk_loop_chk m pth' nextPos rs))
          else Some (Inr (pth, r # rs)))"

definition randomWalk_chk ::
  "WilsonMaze \<Rightarrow> Vector2 \<Rightarrow> draw list \<Rightarrow> (access + path \<times> draw list) option" where
  "randomWalk_chk m start rs = randomWalk_loop_chk m Map.empty start rs"

lemma solidCount_carve_chk:
  assumes "getCellType_chk m x z = Inr (Some Solid)"
    and "setCellType_chk m x z Empty = Inr m1" "setCellType_chk m1 bx bz Empty = Inr m2"
  shows "solidCount m2 < solidCount m"
proof -
  from assms(1) have s: "getCellType m x z = Some Solid"
    by (simp add: getCellType_chk_def readCell_def getCellType_def split: if_splits)
  from assms(2) have m1: "m1 = setCellType m x z Empty"
    by (simp add: setCellType_chk_def writeCell_def setCellType_def split: if_splits)
  from assms(3) have m2: "m2 = setCellType m1 bx bz Empty"
    by (simp add: setCellType_chk_def writeCell_def setCellType_def split: if_splits)
  show ?thesis unfolding m2 m1 by (rule solidCount_carve [OF s])
qed

function carve_chk :: "WilsonMaze \<Rightarrow> path \<Rightarrow> Vector2 \<Rightarrow> int \<Rightarrow> access + (WilsonMaze \<times> int)" where
  "carve_chk m pth cur unvisited =
     (case getCellType_chk m (fst cur) (snd cur) of
        Inl e \<Rightarrow> Inl e
      | Inr t \<Rightarrow>
          if t = Some Solid then
            (case setCellType_chk m (fst cur) (snd cur) Empty of
               Inl e \<Rightarrow> Inl e
             | Inr m1 \<Rightarrow>
                 (case pth (hash cur) of
                    None \<Rightarrow> Inl (Thrown TypeError)
                  | Some dir \<Rightarrow>
                      (let between = stepIn cur dir 1
                       in case setCellType_chk m1 (fst between) (snd between) Empty of
                            Inl e \<Rightarrow> Inl e
                          | Inr m2 \<Rightarrow> carve_chk m2 pth (stepIn cur dir 2) (unvisited - 1))))
          else Inr (m, unvisited))"
  by pat_completeness auto
termination
  by (relation "measure (\<lambda>(m, pth, cur, unvisited). solidCount m)")
     (auto intro: solidCount_carve_chk)

declare carve_chk.simps [simp del]

lemma randomWalk_loop_chk_length:
  "randomWalk_loop_chk m pth cur rs = Some (Inr (pth', rs')) \<Longrightarrow> length rs' \<le> length rs"
proof (induction rs arbitrary: pth cur)
  case Nil
  then show ?case by (simp split: sum.splits if_splits)
next
  case (Cons r rs)
  let ?n = "stepIn cur (randomDir r) 2"
  show ?case
  proof (cases "getCellType_chk m (fst cur) (snd cur) = Inr (Some Solid)")
    case False
    with Cons.prems show ?thesis by (auto split: sum.splits if_splits)
  next
    case solid: True
    show ?thesis
    proof (cases "fst ?n < 0 \<or> snd ?n < 0 \<or> fst ?n > width m - 1 \<or> snd ?n > height m - 1")
      case True
      with solid Cons.prems have "randomWalk_loop_chk m pth cur rs = Some (Inr (pth', rs'))"
        by (simp add: Let_def)
      from Cons.IH [OF this] show ?thesis by simp
    next
      case inb: False
      show ?thesis
      proof (cases "getCellType_chk m (fst ?n) (snd ?n) = Inr (Some Solid)")
        case True
        with solid inb Cons.prems
        have "randomWalk_loop_chk m (pth(hash cur \<mapsto> randomDir r)) ?n rs = Some (Inr (pth', rs'))"
          by (simp add: Let_def)
        from Cons.IH [OF this] show ?thesis by simp
      next
        case False
        with solid inb Cons.prems show ?thesis
          by (cases "getCellType_chk m (fst ?n) (snd ?n)") (auto simp: Let_def split: if_splits)
      qed
    qed
  qed
qed

function generateMaze_loop_chk :: "WilsonMaze \<Rightarrow> int \<Rightarrow> draw list \<Rightarrow> (access + WilsonMaze) option" where
  "generateMaze_loop_chk m unvisited rs =
     (if unvisited > 0 then
        (case rs of
           rx # rz # rs1 \<Rightarrow>
             (let start = randomOddCell m rx rz
              in case randomWalk_chk m start rs1 of
                   None \<Rightarrow> None
                 | Some (Inl e) \<Rightarrow> Some (Inl e)
                 | Some (Inr (pth, rs2)) \<Rightarrow>
                     (case carve_chk m pth start unvisited of
                        Inl e \<Rightarrow> Some (Inl e)
                      | Inr (m', unvisited') \<Rightarrow> generateMaze_loop_chk m' unvisited' rs2))
         | _ \<Rightarrow> None)
      else Some (Inr m))"
  by pat_completeness auto
termination
  by (relation "measure (\<lambda>(m, unvisited, rs). length rs)")
     (auto simp: randomWalk_chk_def dest: randomWalk_loop_chk_length)

declare generateMaze_loop_chk.simps [simp del]

definition generateMaze_chk :: "WilsonMaze \<Rightarrow> draw list \<Rightarrow> (access + WilsonMaze) option" where
  "generateMaze_chk m rs =
     generateMaze_loop_chk m ((width m div 2) * (height m div 2) - 1) rs"

definition initCells_chk :: "int \<Rightarrow> int \<Rightarrow> access + (int, CellType) fmap" where
  "initCells_chk w h =
     fold (\<lambda>z c. fold (\<lambda>x c'. case c' of
                                  Inl e \<Rightarrow> Inl e
                                | Inr a \<Rightarrow>
                                    if 0 \<le> z * w + x \<and> z * w + x < w * h
                                    then Inr (fmupd (z * w + x) Solid a) else Inl OutOfBounds)
                    [0..w - 1] c)
          [0..h - 1] (Inr fmempty)"

definition WilsonMaze_new_chk ::
  "int \<Rightarrow> int \<Rightarrow> Vector2 option \<Rightarrow> Vector2 option \<Rightarrow> draw list \<Rightarrow> (access + WilsonMaze) option" where
  "WilsonMaze_new_chk w h startArg goalArg rs =
     (let w' = roundUpOdd w;
          h' = roundUpOdd h;
          start = (case startArg of None \<Rightarrow> (1, 1) | Some p \<Rightarrow> p);
          goal = (case goalArg of None \<Rightarrow> (w' - 2, h' - 2) | Some p \<Rightarrow> p);
          m0 = \<lparr>width = w', height = h', cells = fmempty,
                startIndex = 0, goalIndex = 0\<rparr>;
          si = linearize m0 (fst start) (snd start);
          gi = linearize m0 (fst goal) (snd goal)
      in if w' * h' < 0 \<or> w' * h' \<ge> 2 ^ 32 then Some (Inl (Thrown RangeError))
         else case initCells_chk w' h' of
                Inl e \<Rightarrow> Some (Inl e)
              | Inr c \<Rightarrow>
                  (case writeCell \<lparr>width = w', height = h', cells = c,
                                   startIndex = si, goalIndex = gi\<rparr> si Empty of
                     Inl e \<Rightarrow> Some (Inl e)
                   | Inr m \<Rightarrow> generateMaze_chk m rs))"

subsection \<open>The tested run is the run\<close>

lemma getCellType_chk_inGrid:
  "inGrid m c \<Longrightarrow> getCellType_chk m (fst c) (snd c) = Inr (getCellType m (fst c) (snd c))"
  using linearize_inRange [of m c]
  by (simp add: getCellType_chk_def readCell_def getCellType_def inRange_def)

lemma setCellType_chk_inGrid:
  "inGrid m c \<Longrightarrow> setCellType_chk m (fst c) (snd c) Empty = Inr (setEmpty m c)"
  using linearize_inRange [of m c]
  by (simp add: setCellType_chk_def writeCell_def setEmpty_def setCellType_def inRange_def)

lemma randomWalk_loop_chk_eq:
  "inGrid m cur \<Longrightarrow>
     randomWalk_loop_chk m pth cur rs = map_option Inr (randomWalk_loop m pth cur rs)"
proof (induction rs arbitrary: pth cur)
  case Nil
  then show ?case by (simp add: getCellType_chk_inGrid)
next
  case (Cons r rs)
  note g = getCellType_chk_inGrid [OF Cons.prems]
  let ?n = "stepIn cur (randomDir r) 2"
  show ?case
  proof (cases "getCellType m (fst cur) (snd cur) = Some Solid")
    case False
    then show ?thesis by (simp add: g)
  next
    case solid: True
    show ?thesis
    proof (cases "fst ?n < 0 \<or> snd ?n < 0 \<or> fst ?n > width m - 1 \<or> snd ?n > height m - 1")
      case True
      with solid Cons.IH [OF Cons.prems, of pth] show ?thesis by (simp add: g Let_def)
    next
      case inb: False
      then have gn: "inGrid m ?n" by (simp add: inGrid_def not_less not_le)
      note g' = getCellType_chk_inGrid [OF gn]
      show ?thesis
      proof (cases "getCellType m (fst ?n) (snd ?n) = Some Solid")
        case True
        with solid inb
        have e1: "randomWalk_loop m pth cur (r # rs) =
            randomWalk_loop m (pth(hash cur \<mapsto> randomDir r)) ?n rs"
          by (simp add: Let_def)
        from True solid inb
        have e2: "randomWalk_loop_chk m pth cur (r # rs) =
            randomWalk_loop_chk m (pth(hash cur \<mapsto> randomDir r)) ?n rs"
          by (simp add: g g' Let_def)
        show ?thesis unfolding e1 e2 by (rule Cons.IH [OF gn])
      next
        case False
        with solid inb show ?thesis by (simp add: g g' Let_def)
      qed
    qed
  qed
qed

lemma carve_chk_step:
  assumes a: "node m a" "cellAt m a = Some Solid"
    and P: "P (hash a) = Some d" and b: "node m (stepIn a d 2)"
  shows "carve_chk m P a n = carve_chk (setEmpty (setEmpty m a) (stepIn a d 1)) P (stepIn a d 2) (n - 1)"
proof -
  have ga: "inGrid m a" by (rule node_inGrid [OF a(1)])
  have gb: "inGrid (setEmpty m a) (stepIn a d 1)"
    using mid_inGrid [OF a(1) b] by (simp add: inGrid_def setEmpty_def)
  show ?thesis
    using a(2) P
    by (subst carve_chk.simps)
       (simp add: getCellType_chk_inGrid [OF ga] setCellType_chk_inGrid [OF ga]
          setCellType_chk_inGrid [OF gb] cellAt_def Let_def)
qed

lemma carve_chk_stop:
  assumes "node m e" "cellAt m e \<noteq> Some Solid"
  shows "carve_chk m P e n = Inr (m, n)"
  using assms(2)
  by (subst carve_chk.simps)
     (simp add: getCellType_chk_inGrid [OF node_inGrid [OF assms(1)]] cellAt_def)

lemma carve_chk_chain:
  "wellFormed m \<Longrightarrow> solidChain m ch \<Longrightarrow> follows P (ch @ [e]) \<Longrightarrow> node m e \<Longrightarrow>
   cellAt m e \<noteq> Some Solid \<Longrightarrow>
   carve_chk m P (hd ch) n = Inr (carveChain m (ch @ [e]), n - int (length ch))"
proof (induction ch arbitrary: m n)
  case Nil
  then show ?case by (simp add: solidChain_def)
next
  case (Cons a r)
  let ?b = "hd (r @ [e])"
  from Cons.prems(3) obtain d where d: "P (hash a) = Some d" "stepIn a d 2 = ?b"
    and fr: "follows P (r @ [e])"
    by (cases "r @ [e]") auto
  from Cons.prems(2) have a: "node m a" "cellAt m a = Some Solid"
    and r: "\<forall>c\<in>set r. node m c \<and> cellAt m c = Some Solid" and dist: "distinct (a # r)"
    by (simp_all add: solidChain_def)
  have nb: "node m (stepIn a d 2)"
    using d(2) r Cons.prems(4) by (cases r) simp_all
  let ?m2 = "setEmpty (setEmpty m a) (stepIn a d 1)"
  note st = carve_step [where m = m and a = a and P = P and d = d, OF Cons.prems(1) a d(1) nb]
  note st1 = carve_chk_step [where m = m and a = a and P = P and d = d, OF a d(1) nb]
  have e2: "cellAt ?m2 e \<noteq> Some Solid" by (rule st(4) [OF Cons.prems(5)])
  have ne: "node ?m2 e" using Cons.prems(4) by simp
  have cc: "carveChain m ((a # r) @ [e]) = carveChain ?m2 (r @ [e])"
    using d(2) between_stepIn [of a d] by (cases "r @ [e]") simp_all
  show ?case
  proof (cases r)
    case Nil
    with d(2) have "stepIn a d 2 = e" by simp
    with st1 [of n] carve_chk_stop [OF ne e2, of P "n - 1"]
    have "carve_chk m P a n = Inr (?m2, n - 1)" by simp
    with cc Nil show ?thesis by simp
  next
    case (Cons b r')
    with d(2) have b: "stepIn a d 2 = hd r" by simp
    have sc: "solidChain ?m2 r"
    proof -
      have "cellAt ?m2 c = Some Solid" if "c \<in> set r" for c
      proof -
        from that r dist have "node m c" "c \<noteq> a" "cellAt m c = Some Solid" by auto
        with st(3) [of c] show ?thesis by simp
      qed
      with r dist Cons show ?thesis by (simp add: solidChain_def)
    qed
    from Cons.IH [OF st(2) sc fr ne e2, of "n - 1"] st1 [of n] b cc
    show ?thesis by simp
  qed
qed

lemma genInv_carve_chk:
  assumes inv: "genInv m n"
    and rx: "isDraw rx" and rz: "isDraw rz"
    and walk: "randomWalk m (randomOddCell m rx rz) rs = Some (P, rs')"
  shows "carve_chk m P (randomOddCell m rx rz) n =
           map_sum Thrown id (carve m P (randomOddCell m rx rz) n)"
proof -
  let ?s = "randomOddCell m rx rz"
  from inv have wf: "wellFormed m" and sm: "smallGrid m" by (simp_all add: genInv_def)
  from wf have dims: "odd (width m)" "3 \<le> width m" "odd (height m)" "3 \<le> height m"
    by (simp_all add: wellFormed_def)
  have ns: "node m ?s"
    using randomOddCell_range' [OF dims rx rz] by (simp add: isNode_def)
  show ?thesis
  proof (cases "cellAt m ?s = Some Solid")
    case False
    then have "carve m P ?s n = Inr (m, n)" by (simp add: carve.simps cellAt_def)
    with carve_chk_stop [OF ns False, of P n] show ?thesis by simp
  next
    case True
    have sc: "solidChain m [?s]" using ns True by (simp add: solidChain_def)
    from walk have "randomWalk_loop m Map.empty ?s rs = Some (P, rs')" by (simp add: randomWalk_def)
    from walk_chain [OF wf sm this sc] obtain ch e
      where ch: "solidChain m ch" "hd ch = ?s" "follows P (ch @ [e])" "node m e"
        "cellAt m e \<noteq> Some Solid"
      by auto
    from carve_chain [OF wf ch(1,3,4,5), of n] carve_chk_chain [OF wf ch(1,3,4,5), of n] ch(2)
    show ?thesis by simp
  qed
qed

lemma generateMaze_loop_chk_eq:
  "genInv m n \<Longrightarrow> draws_ok rs \<Longrightarrow>
     generateMaze_loop_chk m n rs = map_option (map_sum Thrown id) (generateMaze_loop m n rs)"
proof (induction m n rs rule: generateMaze_loop.induct)
  case (1 m n rs)
  show ?case
  proof (cases "n > 0")
    case False
    then show ?thesis by (simp add: generateMaze_loop.simps generateMaze_loop_chk.simps)
  next
    case True
    show ?thesis
    proof (cases "\<exists>rx rz rs1. rs = rx # rz # rs1")
      case False
      then have "generateMaze_loop m n rs = None" "generateMaze_loop_chk m n rs = None"
        using True
        by (cases rs; cases "tl rs"; simp add: generateMaze_loop.simps generateMaze_loop_chk.simps)+
      then show ?thesis by simp
    next
      case ex: True
      then obtain rx rz rs1 where rs: "rs = rx # rz # rs1" by blast
      let ?s = "randomOddCell m rx rz"
      from "1.prems"(2) rs have r: "isDraw rx" "isDraw rz" and ok1: "draws_ok rs1"
        by (simp_all add: draws_ok_def)
      from "1.prems"(1) have wf: "wellFormed m" by (simp add: genInv_def)
      from wf have dims: "odd (width m)" "3 \<le> width m" "odd (height m)" "3 \<le> height m"
        by (simp_all add: wellFormed_def)
      have ns: "node m ?s"
        using randomOddCell_range' [OF dims r] by (simp add: isNode_def)
      have weq: "randomWalk_chk m ?s rs1 = map_option Inr (randomWalk m ?s rs1)"
        unfolding randomWalk_chk_def randomWalk_def
        by (rule randomWalk_loop_chk_eq [OF node_inGrid [OF ns]])
      show ?thesis
      proof (cases "randomWalk m ?s rs1")
        case None
        with weq True rs show ?thesis
          by (simp add: generateMaze_loop.simps [of m] generateMaze_loop_chk.simps [of m])
      next
        case (Some a)
        obtain P rs2 where a: "a = (P, rs2)" by (cases a)
        from Some a have w: "randomWalk m ?s rs1 = Some (P, rs2)" by simp
        from genInv_iteration [OF "1.prems"(1) r w] obtain m1 n1
          where c: "carve m P ?s n = Inr (m1, n1)" and inv1: "genInv m1 n1"
          by blast
        have ok2: "draws_ok rs2" by (rule randomWalk_draws_ok [OF w ok1])
        from genInv_carve_chk [OF "1.prems"(1) r w] c
        have cc: "carve_chk m P ?s n = Inr (m1, n1)" by simp
        have e1: "generateMaze_loop m n rs = generateMaze_loop m1 n1 rs2"
          using True rs w c by (simp add: generateMaze_loop.simps [of m])
        have e2: "generateMaze_loop_chk m n rs = generateMaze_loop_chk m1 n1 rs2"
          using True rs w weq cc by (simp add: generateMaze_loop_chk.simps [of m])
        show ?thesis unfolding e1 e2
          by (rule "1.IH" [OF True rs refl refl w refl c refl inv1 ok2])
      qed
    qed
  qed
qed

lemma fold_row_chk:
  "\<forall>x\<in>set xs. 0 \<le> f x \<and> f x < N \<Longrightarrow>
     fold (\<lambda>x c'. case c' of Inl e \<Rightarrow> Inl e
                   | Inr a \<Rightarrow> if 0 \<le> f x \<and> f x < N then Inr (fmupd (f x) Solid a) else Inl OutOfBounds)
          xs (Inr c) =
     Inr (fold (\<lambda>x c'. fmupd (f x) Solid c') xs c)"
  by (induction xs arbitrary: c) simp_all

lemma fold_rows_chk:
  "\<forall>z\<in>set zs. \<forall>x\<in>set xs. 0 \<le> g z x \<and> g z x < N \<Longrightarrow>
     fold (\<lambda>z c. fold (\<lambda>x c'. case c' of Inl e \<Rightarrow> Inl e
                   | Inr a \<Rightarrow> if 0 \<le> g z x \<and> g z x < N then Inr (fmupd (g z x) Solid a) else Inl OutOfBounds)
          xs c) zs (Inr c0) =
     Inr (fold (\<lambda>z c. fold (\<lambda>x c'. fmupd (g z x) Solid c') xs c) zs c0)"
proof (induction zs arbitrary: c0)
  case Nil
  then show ?case by simp
next
  case (Cons z zs)
  from Cons.prems have row: "\<forall>x\<in>set xs. 0 \<le> g z x \<and> g z x < N"
    and rest: "\<forall>z\<in>set zs. \<forall>x\<in>set xs. 0 \<le> g z x \<and> g z x < N"
    by simp_all
  show ?case
    by (simp add: fold_row_chk [where f = "g z", OF row] Cons.IH [OF rest])
qed

lemma initCells_chk_eq:
  assumes "0 < w"
  shows "initCells_chk w h = Inr (initCells w h)"
proof -
  have "\<forall>z\<in>set [0..h - 1]. \<forall>x\<in>set [0..w - 1]. 0 \<le> z * w + x \<and> z * w + x < w * h"
    using index_decompose [OF assms, of h] by auto
  from fold_rows_chk [where g = "\<lambda>z x. z * w + x", OF this]
  show ?thesis unfolding initCells_chk_def initCells_def .
qed

lemma generateMaze_chk_trivial:
  "(width m div 2) * (height m div 2) - 1 \<le> 0 \<Longrightarrow> generateMaze_chk m rs = Some (Inr m)"
  by (simp add: generateMaze_chk_def generateMaze_loop_chk.simps)

lemma WilsonMaze_new_chk_default:
  assumes "\<not> (roundUpOdd w * roundUpOdd h < 0 \<or> roundUpOdd w * roundUpOdd h \<ge> 2 ^ 32)"
    and "0 < roundUpOdd w" "0 \<le> roundUpOdd w + 1" "roundUpOdd w + 1 < roundUpOdd w * roundUpOdd h"
  shows "WilsonMaze_new_chk w h None None rs =
           generateMaze_chk (freshMaze (roundUpOdd w) (roundUpOdd h)) rs"
  using assms
  by (simp add: WilsonMaze_new_chk_def Let_def linearize_def freshMaze_def initCells_chk_eq
      writeCell_def)

lemma start_index_bound:
  fixes W H :: int
  assumes "1 \<le> W" "3 \<le> H"
  shows "0 \<le> W + 1" "W + 1 < W * H" "0 \<le> (H - 2) * W + (W - 2)" "(H - 2) * W + (W - 2) < W * H"
proof -
  show "0 \<le> W + 1" using assms by simp
  have "W + 1 < W * 3" using assms by simp
  also have "\<dots> \<le> W * H" using assms by (intro mult_left_mono) simp_all
  finally show "W + 1 < W * H" .
  have "1 * W \<le> (H - 2) * W" using assms by (intro mult_right_mono) simp_all
  then have "W \<le> (H - 2) * W" by simp
  then show "0 \<le> (H - 2) * W + (W - 2)" using assms(1) by linarith
  have "(H - 2) * W + (W - 2) = W * H - W - 2" by (simp add: algebra_simps)
  then show "(H - 2) * W + (W - 2) < W * H" using assms(1) by linarith
qed

subsection \<open>Two runs that leave the array\<close>

lemma run_1_1_chk: "WilsonMaze_new_chk 1 1 None None [] = Some (Inl OutOfBounds)"
  by (simp add: WilsonMaze_new_chk_def roundUpOdd_eq linearize_def initCells_chk_eq writeCell_def)

lemma maze_1_1_indices:
  "width maze_1_1 * height maze_1_1 = 1" "startIndex maze_1_1 = 2" "goalIndex maze_1_1 = - 2"
  by (simp_all add: maze_1_1_def)

lemma straight_replay_chk:
  assumes wf: "wellFormed m" and k: "0 < k"
    and cells: "\<forall>i<k. node m (stepIn c d (2 * int i)) \<and> cellAt m (stepIn c d (2 * int i)) = Some Solid"
    and e: "node m (stepIn c d (2 * int k))" "cellAt m (stepIn c d (2 * int k)) \<noteq> Some Solid"
  shows "carve_chk m (pathAlong Map.empty c d k) c n =
           Inr (carveChain m (line c d k @ [stepIn c d (2 * int k)]), n - int k)"
proof -
  let ?P = "pathAlong Map.empty c d k"
  note sc = line_solidChain [OF k cells]
  have "\<forall>i<k. ?P (hash (stepIn c d (2 * int i))) = Some d"
    by (auto simp: pathAlong_lookup)
  then have fol: "follows ?P (line c d k @ [stepIn c d (2 * int k)])" by (rule follows_line)
  from carve_chk_chain [OF wf sc(1) fol e, of n] sc(2) show ?thesis by simp
qed

lemma loop_chk_iteration:
  assumes "0 < n" "randomOddCell m rx rz = s" "inGrid m s" "randomWalk m s rs1 = Some (P, rs2)"
  shows "generateMaze_loop_chk m n (rx # rz # rs1) =
           (case carve_chk m P s n of
              Inl e \<Rightarrow> Some (Inl e)
            | Inr (m', n') \<Rightarrow> generateMaze_loop_chk m' n' rs2)"
proof -
  have "randomWalk_chk m s rs1 = Some (Inr (P, rs2))"
    unfolding randomWalk_chk_def randomWalk_loop_chk_eq [OF assms(3)]
    using assms(4) by (simp add: randomWalk_def)
  with assms(1,2) show ?thesis by (subst generateMaze_loop_chk.simps) simp
qed

lemma phase1_chk:
  "carve_chk (freshMaze 5 65539) (pathAlong Map.empty (1, 65537) Up 32768) (1, 65537) n =
     Inr (tall1, n - 32768)"
proof -
  let ?m = "freshMaze 5 65539" and ?c = "(1 :: int, 65537 :: int)"
  have k: "(0 :: nat) < 32768" by simp
  have last: "stepIn ?c Up (2 * int 32768) = (1, 1)" by simp
  have cells: "\<forall>i<32768. node ?m (stepIn ?c Up (2 * int i)) \<and>
      cellAt ?m (stepIn ?c Up (2 * int i)) = Some Solid"
  proof (intro allI impI)
    fix i :: nat assume i: "i < 32768"
    have n: "node ?m (1, 65537 - 2 * int i)" using i by (simp add: isNode_def)
    from node_inGrid [OF n] have "cellAt ?m (1, 65537 - 2 * int i) = Some Solid"
      using i by (simp add: tall0_cell)
    with n show "node ?m (stepIn ?c Up (2 * int i)) \<and> cellAt ?m (stepIn ?c Up (2 * int i)) = Some Solid"
      by simp
  qed
  have e: "node ?m (stepIn ?c Up (2 * int 32768))" "cellAt ?m (stepIn ?c Up (2 * int 32768)) \<noteq> Some Solid"
    unfolding last by (simp_all add: isNode_def tall0_cell inGrid_def)
  from straight_replay_chk [OF tall0_wf k cells e, of n] show ?thesis
    unfolding last tall1_def by simp
qed

lemma phase2_chk: "carve_chk tall1 path2 (3, 1) n = Inl OutOfBounds"
proof -
  have g1: "inGrid tall1 (3, 1)" by (simp add: inGrid_def)
  have g0: "inGrid (setEmpty tall1 (3, 1)) (3, 0)" by (simp add: inGrid_def setEmpty_def)
  have solid: "getCellType tall1 3 1 = Some Solid" by (simp add: tall1_solid)
  have "carve_chk tall1 path2 (3, 1) n = carve_chk tall2 path2 (3, - 1) (n - 1)"
    using solid path2_start getCellType_chk_inGrid [OF g1] setCellType_chk_inGrid [OF g1]
      setCellType_chk_inGrid [OF g0]
    by (subst carve_chk.simps) (simp add: tall2_def)
  also have "\<dots> = Inl OutOfBounds"
    by (subst carve_chk.simps) (simp add: getCellType_chk_def readCell_def linearize_def)
  finally show ?thesis .
qed

lemma tall_run_chk: "WilsonMaze_new_chk 5 65539 None None tallDraws = Some (Inl OutOfBounds)"
proof -
  let ?d3 = "(1, 1) # (131071, 17) # replicate 32768 (0, 0)"
  let ?d2 = "(1, 1) # (0, 0) # (replicate 32768 (1, 2) @ (0, 0) # (1, 1) # ?d3)"
  have d: "tallDraws = (0, 0) # (131071, 17) # (replicate 32768 (0, 0) @ ?d2)"
    by (simp add: tallDraws_def)
  have "WilsonMaze_new_chk 5 65539 None None tallDraws =
      generateMaze_loop_chk (freshMaze 5 65539) 65537 tallDraws"
    by (simp add: WilsonMaze_new_chk_default roundUpOdd_eq generateMaze_chk_def)
  also have "\<dots> = generateMaze_loop_chk tall1 32769 ?d2"
    unfolding d
    by (subst loop_chk_iteration [OF _ tall_cells(1) _ phase1(1)])
       (simp_all add: inGrid_def phase1_chk)
  also have "\<dots> = Some (Inl OutOfBounds)"
    by (subst loop_chk_iteration [OF _ tall_cells(2) _ phase2_walk])
       (simp_all add: inGrid_def phase2_chk)
  finally show ?thesis .
qed

text \<open>
  Claim C9 says that for every width and height from 1 the start index and the goal index
  are inside the array and every access is within bounds. For the request \<open>(1, 1)\<close> the array
  has one element, the start index is 2 and the goal index is -2; the constructor writes
  \<open>Empty\<close> at the index 2, outside the array. In the run on the 5 by 65539 grid, the replay
  of the second walk reads the cell \<open>(3, -1)\<close>, at the index -2.
\<close>

theorem generate_out_of_bounds:
  "WilsonMaze_new 1 1 None None [] = Some (Inr maze_1_1) \<and>
   width maze_1_1 * height maze_1_1 = 1 \<and> startIndex maze_1_1 = 2 \<and> goalIndex maze_1_1 = - 2 \<and>
   WilsonMaze_new_chk 1 1 None None [] = Some (Inl OutOfBounds) \<and>
   draws_ok tallDraws \<and>
   WilsonMaze_new_chk 5 65539 None None tallDraws = Some (Inl OutOfBounds)"
  using run_1_1 run_1_1_chk maze_1_1_indices tall_draws_ok tall_run_chk
  by simp

subsection \<open>Runs inside the array\<close>

text \<open>
  Claim C9 as amended: for every requested width from 1 and height from 2, both at most
  \<open>2^16 + 1\<close>, and draws in \<open>[0, 1)\<close>, the run of the constructor with the default start and
  goal in which every access to the array tests the bounds is the run without the tests: no
  read or write of the construction or of the generation is out of bounds. The start index
  and the goal index the constructor computes are inside the array, and so are those of the
  maze returned.
\<close>

theorem accesses_in_bounds:
  assumes "1 \<le> w" "w \<le> 65537" "2 \<le> h" "h \<le> 65537" "draws_ok rs"
  shows "WilsonMaze_new_chk w h None None rs =
           map_option (map_sum Thrown id) (WilsonMaze_new w h None None rs) \<and>
         WilsonMaze_new_chk w h None None rs \<noteq> Some (Inl OutOfBounds) \<and>
         (let m0 = \<lparr>width = roundUpOdd w, height = roundUpOdd h, cells = fmempty,
                     startIndex = 0, goalIndex = 0\<rparr>
          in inRange m0 (linearize m0 1 1) \<and>
             inRange m0 (linearize m0 (roundUpOdd w - 2) (roundUpOdd h - 2))) \<and>
         (\<forall>m. WilsonMaze_new w h None None rs = Some (Inr m) \<longrightarrow>
              inRange m (startIndex m) \<and> inRange m (goalIndex m))"
proof -
  let ?W = "roundUpOdd w" and ?H = "roundUpOdd h"
  have H: "odd ?H" "3 \<le> ?H" "?H \<le> 65537"
    using roundUpOdd_bounds [OF assms(3,4)] by (simp_all add: roundUpOdd_odd)
  have W: "odd ?W" "1 \<le> ?W" "?W \<le> 65537" "?W = 1 \<or> 3 \<le> ?W"
  proof -
    show "odd ?W" by (rule roundUpOdd_odd)
    show "1 \<le> ?W" using assms(1) by (simp add: roundUpOdd_eq)
    show "?W \<le> 65537" using assms(2) by (cases "w = 65537") (auto simp: roundUpOdd_eq)
    show "?W = 1 \<or> 3 \<le> ?W"
    proof (cases "w = 1")
      case True
      then show ?thesis by (simp add: roundUpOdd_eq)
    next
      case False
      with assms(1) have "2 \<le> w" by simp
      from roundUpOdd_bounds(1) [OF this assms(2)] show ?thesis by simp
    qed
  qed
  note ib = start_index_bound [OF W(2) H(2)]
  have eq: "WilsonMaze_new_chk w h None None rs =
           map_option (map_sum Thrown id) (WilsonMaze_new w h None None rs)"
  proof (cases "?W * ?H < 0 \<or> ?W * ?H \<ge> 2 ^ 32")
    case True
    then show ?thesis by (simp add: WilsonMaze_new_chk_def WilsonMaze_new_def Let_def)
  next
    case False
    have c: "WilsonMaze_new_chk w h None None rs = generateMaze_chk (freshMaze ?W ?H) rs"
      using W(2) ib(1,2) by (intro WilsonMaze_new_chk_default [OF False]) simp_all
    have u: "WilsonMaze_new w h None None rs = generateMaze (freshMaze ?W ?H) rs"
      by (rule WilsonMaze_new_default [OF False])
    from W(4) show ?thesis
    proof
      assume "?W = 1"
      then have t: "(width (freshMaze ?W ?H) div 2) * (height (freshMaze ?W ?H) div 2) - 1 \<le> 0"
        by (simp add: freshMaze_def)
      show ?thesis
        unfolding c u generateMaze_chk_trivial [OF t] generateMaze_trivial [OF t] by simp
    next
      assume "3 \<le> ?W"
      from freshMaze_genInv [OF W(1) this W(3) H]
      have "genInv (freshMaze ?W ?H) ((?W div 2) * (?H div 2) - 1)" .
      from generateMaze_loop_chk_eq [OF this assms(5)] show ?thesis
        unfolding c u by (simp add: generateMaze_chk_def generateMaze_def freshMaze_def)
    qed
  qed
  have nb: "WilsonMaze_new_chk w h None None rs \<noteq> Some (Inl OutOfBounds)"
  proof (cases "WilsonMaze_new w h None None rs")
    case None
    then show ?thesis unfolding eq by simp
  next
    case (Some a)
    then show ?thesis unfolding eq by (cases a) simp_all
  qed
  have comp: "let m0 = \<lparr>width = ?W, height = ?H, cells = fmempty, startIndex = 0, goalIndex = 0\<rparr>
          in inRange m0 (linearize m0 1 1) \<and> inRange m0 (linearize m0 (?W - 2) (?H - 2))"
    using ib by (simp add: Let_def inRange_def linearize_def)
  have ret: "inRange m (startIndex m) \<and> inRange m (goalIndex m)"
    if m: "WilsonMaze_new w h None None rs = Some (Inr m)" for m
  proof -
    have "width m = ?W \<and> height m = ?H \<and> startIndex m = ?W + 1 \<and>
        goalIndex m = (?H - 2) * ?W + (?W - 2)"
    proof (cases "w = 1")
      case True
      have r: "\<not> (?W * ?H < 0 \<or> ?W * ?H \<ge> 2 ^ 32)" using True H by (simp add: roundUpOdd_eq)
      have t: "(width (freshMaze ?W ?H) div 2) * (height (freshMaze ?W ?H) div 2) - 1 \<le> 0"
        using True by (simp add: freshMaze_def roundUpOdd_eq)
      from m have "m = freshMaze ?W ?H"
        unfolding WilsonMaze_new_default [OF r] generateMaze_trivial [OF t] by simp
      then show ?thesis by (simp add: freshMaze_def)
    next
      case False
      with assms(1) have "2 \<le> w" by simp
      note g = generated_maze [OF this assms(2-5) m]
      from g(4-7) show ?thesis by simp
    qed
    with ib show ?thesis by (simp add: inRange_def)
  qed
  from eq nb comp ret show ?thesis by blast
qed

theorem accesses_in_bounds_witness:
  "draws_ok [(0, 0), (1, 1), (0, 0)] \<and>
   WilsonMaze_new 3 5 None None [(0, 0), (1, 1), (0, 0)] = Some (Inr maze_3_5) \<and>
   WilsonMaze_new_chk 3 5 None None [(0, 0), (1, 1), (0, 0)] = Some (Inr maze_3_5) \<and>
   inRange maze_3_5 (startIndex maze_3_5) \<and> inRange maze_3_5 (goalIndex maze_3_5)"
  using accesses_in_bounds [of 3 5 "[(0, 0), (1, 1), (0, 0)]"] run_3_5 draws_3_5
  by simp

end
